theory Spec2Isabelle
  imports Main "HOL-Library.Sublist" "HOL-Library.Word"
begin

unbundle bit_operations_syntax

section \<open>Lexical normalisation\<close>

text \<open>
  Both programs keep the eight command characters in a module constant
  \<^verbatim>\<open>VALID_TOKENS = "<>[].,+-"\<close> and filter the source text with the comprehension
  \<^verbatim>\<open>"".join([c for c in source if c in VALID_TOKENS])\<close>.  A Python \<^verbatim>\<open>str\<close> is modelled
  as a \<^typ>\<open>string\<close>; the comprehension is \<^const>\<open>filter\<close>.
\<close>

definition VALID_TOKENS :: string where
  "VALID_TOKENS = ''<>[].,+-''"

text \<open>\<^verbatim>\<open>bfi.clean_source\<close>.\<close>

definition clean_source :: "string \<Rightarrow> string" where
  "clean_source source = filter (\<lambda>c. c \<in> set VALID_TOKENS) source"

text \<open>\<^verbatim>\<open>BFCompiler.normalize\<close> (a static method of the compiler class).\<close>

definition normalize_bf :: "string \<Rightarrow> string" where
  "normalize_bf source_code = filter (\<lambda>c. c \<in> set VALID_TOKENS) source_code"

section \<open>Properties of the normaliser\<close>

lemma set_VALID_TOKENS:
  "set VALID_TOKENS =
     {CHR ''<'', CHR ''>'', CHR ''['', CHR '']'', CHR ''.'', CHR '','', CHR ''+'', CHR ''-''}"
  by (auto simp: VALID_TOKENS_def)

lemma subseq_into_filter:
  "subseq t s \<Longrightarrow> \<forall>c\<in>set t. P c \<Longrightarrow> subseq t (filter P s)"
proof -
  assume sub: "subseq t s" and all: "\<forall>c\<in>set t. P c"
  from sub have "subseq (filter P t) (filter P s)"
    by (rule subseq_filter)
  moreover from all have "filter P t = t"
    by (simp add: filter_id_conv)
  ultimately show ?thesis by simp
qed

text \<open>
  Claim C9.  The normaliser is a total function (a HOL function, with no error branch,
  because the comprehension cannot raise); its output is a subsequence of the input, in
  the original order, that contains only the eight command characters; it is the largest
  such subsequence, since every subsequence of the input made of command characters only
  is a subsequence of the output; normalising twice is normalising once; and the
  compiler's \<^verbatim>\<open>normalize\<close> and the interpreter's \<^verbatim>\<open>clean_source\<close> are the same function.
\<close>

theorem normalizer_maximal_subsequence_idempotent:
  "subseq (normalize_bf s) s
   \<and> set (normalize_bf s) \<subseteq> set ''<>[].,+-''
   \<and> (\<forall>t. subseq t s \<and> set t \<subseteq> set ''<>[].,+-'' \<longrightarrow> subseq t (normalize_bf s))
   \<and> normalize_bf (normalize_bf s) = normalize_bf s
   \<and> clean_source (clean_source s) = clean_source s
   \<and> normalize_bf s = clean_source s"
proof -
  have a: "subseq (normalize_bf s) s"
    by (simp add: normalize_bf_def)
  have b: "set (normalize_bf s) \<subseteq> set ''<>[].,+-''"
    by (auto simp: normalize_bf_def VALID_TOKENS_def)
  have c: "\<forall>t. subseq t s \<and> set t \<subseteq> set ''<>[].,+-'' \<longrightarrow> subseq t (normalize_bf s)"
  proof (intro allI impI)
    fix t :: string
    assume h: "subseq t s \<and> set t \<subseteq> set ''<>[].,+-''"
    then have "\<forall>c\<in>set t. c \<in> set VALID_TOKENS"
      by (auto simp: VALID_TOKENS_def)
    with h show "subseq t (normalize_bf s)"
      unfolding normalize_bf_def by (intro subseq_into_filter) auto
  qed
  have d: "normalize_bf (normalize_bf s) = normalize_bf s"
    by (simp add: normalize_bf_def)
  have e: "clean_source (clean_source s) = clean_source s"
    by (simp add: clean_source_def)
  have f: "normalize_bf s = clean_source s"
    by (simp add: normalize_bf_def clean_source_def)
  from a b c d e f show ?thesis by blast
qed

theorem normalizer_maximal_subsequence_idempotent_witness:
  "subseq ''+-'' ''a+b-'' \<and> set ''+-'' \<subseteq> set ''<>[].,+-''
   \<and> subseq ''+-'' (normalize_bf ''a+b-'')
   \<and> normalize_bf ''a+b-'' = ''+-''"
proof -
  have h: "subseq ''+-'' ''a+b-'' \<and> set ''+-'' \<subseteq> set ''<>[].,+-''"
    by simp
  have n: "normalize_bf ''a+b-'' = ''+-''"
    by (simp add: normalize_bf_def VALID_TOKENS_def)
  from normalizer_maximal_subsequence_idempotent [of "''a+b-''"] h
  have "subseq ''+-'' (normalize_bf ''a+b-'')" by blast
  with h n show ?thesis by blast
qed

section \<open>Errors\<close>

text \<open>
  Every exception the two programs can raise is a value.  The interpreter raises
  \<^verbatim>\<open>InterpreterError\<close> with four messages: \<^verbatim>\<open>mismatched bracket at index %d\<close>, \<^verbatim>\<open>pointer out of
  range (%d)\<close>, \<^verbatim>\<open>interpreter does not accept multibyte characters\<close> and \<^verbatim>\<open>reached eof when
  scanning for input\<close>.  The compiler raises \<^verbatim>\<open>ValueError("missing matching bracket")\<close>, and
  \<^verbatim>\<open>StopIteration\<close> to end its main loop.  The remaining constructors are the errors of the
  Python run time that the code can meet (an index or a key out of range, a value of the
  wrong type or out of the range of a byte).
\<close>

datatype error =
    MismatchedBracket nat
  | PointerOutOfRange int
  | MultibyteInput
  | EndOfInput
  | MissingMatchingBracket
  | IndexError
  | KeyError
  | TypeError
  | ValueError
  | StopIteration

section \<open>Bracket resolution in the interpreter\<close>

text \<open>
  \<^verbatim>\<open>tag_lookahead(source, index)\<close>: the \<^verbatim>\<open>while\<close> loop, with the cursor and the nesting level as
  arguments.  The two \<^verbatim>\<open>if\<close> statements of the body test different characters, so they are
  written as one chain.  The loop returns the cursor at the first loop-end that brings the
  level to 0 and falls out of the loop (\<open>None\<close>) at the end of the source, where the function
  raises.
\<close>

function tag_lookahead_loop :: "string \<Rightarrow> nat \<Rightarrow> int \<Rightarrow> nat option" where
  "tag_lookahead_loop source cursor nest_level =
     (if cursor < length source then
        (if source ! cursor = CHR ''['' then
           tag_lookahead_loop source (cursor + 1) (nest_level + 1)
         else if source ! cursor = CHR '']'' then
           (if nest_level - 1 = 0 then Some cursor
            else tag_lookahead_loop source (cursor + 1) (nest_level - 1))
         else tag_lookahead_loop source (cursor + 1) nest_level)
      else None)"
  by pat_completeness auto
termination
  by (relation "measure (\<lambda>(source, cursor, nest_level). length source - cursor)") auto

definition tag_lookahead :: "string \<Rightarrow> nat \<Rightarrow> error + nat" where
  "tag_lookahead source index =
     (case tag_lookahead_loop source (index + 1) 1 of
        Some cursor \<Rightarrow> Inr cursor
      | None \<Rightarrow> Inl (MismatchedBracket index))"

text \<open>
  \<^verbatim>\<open>construct_tags(source)\<close>: the \<^verbatim>\<open>for index in range(len(source))\<close> loop runs over the list of
  indices; the dictionary \<^verbatim>\<open>tags\<close> is a map, \<^verbatim>\<open>index not in tags\<close> is \<open>tags index = None\<close>.
\<close>

fun construct_tags_loop :: "string \<Rightarrow> nat list \<Rightarrow> (nat \<rightharpoonup> nat) \<Rightarrow> error + (nat \<rightharpoonup> nat)" where
  "construct_tags_loop source [] tags = Inr tags"
| "construct_tags_loop source (index # rest) tags =
     (if source ! index = CHR ''['' then
        (case tag_lookahead source index of
           Inl e \<Rightarrow> Inl e
         | Inr next_index \<Rightarrow>
             construct_tags_loop source rest (tags(index \<mapsto> next_index, next_index \<mapsto> index)))
      else if source ! index = CHR '']'' then
        (if tags index = None then Inl (MismatchedBracket index)
         else construct_tags_loop source rest tags)
      else construct_tags_loop source rest tags)"

definition construct_tags :: "string \<Rightarrow> error + (nat \<rightharpoonup> nat)" where
  "construct_tags source = construct_tags_loop source [0..<length source] Map.empty"

text \<open>
  The specification's well-formed programs: scanning from the left, the nesting depth
  (one up on a loop-start, one down on a loop-end) never goes below zero and ends at zero.
\<close>

fun balanced :: "int \<Rightarrow> string \<Rightarrow> bool" where
  "balanced d [] = (d = 0)"
| "balanced d (c # cs) =
     (if c = CHR ''['' then balanced (d + 1) cs
      else if c = CHR '']'' then 0 \<le> d - 1 \<and> balanced (d - 1) cs
      else balanced d cs)"

definition well_formed :: "string \<Rightarrow> bool" where
  "well_formed program = balanced 0 program"

text \<open>
  For the proofs the depth is also read at every prefix: \<open>depth (take k s)\<close> is the nesting
  depth after the first \<open>k\<close> tokens.
\<close>

fun unit_depth :: "char \<Rightarrow> int" where
  "unit_depth c = (if c = CHR ''['' then 1 else if c = CHR '']'' then - 1 else 0)"

definition depth :: "string \<Rightarrow> int" where
  "depth s = sum_list (map unit_depth s)"

declare tag_lookahead_loop.simps [simp del]

lemma depth_take_Suc:
  "k < length s \<Longrightarrow> depth (take (Suc k) s) = depth (take k s) + unit_depth (s ! k)"
  by (simp add: depth_def take_Suc_conv_app_nth)

lemma depth_Nil [simp]: "depth [] = 0"
  by (simp add: depth_def)

lemma depth_take_0 [simp]: "depth (take 0 s) = 0"
  by (simp add: depth_def)

lemma depth_take_all [simp]: "depth (take (length s) s) = depth s"
  by simp

lemma all_le_Cons_depth:
  "(\<forall>k\<le>length (c # cs). 0 \<le> d + depth (take k (c # cs)))
     \<longleftrightarrow> 0 \<le> d \<and> (\<forall>k\<le>length cs. 0 \<le> (d + unit_depth c) + depth (take k cs))"
proof
  assume a: "\<forall>k\<le>length (c # cs). 0 \<le> d + depth (take k (c # cs))"
  from a have "0 \<le> d + depth (take 0 (c # cs))" by blast
  then have d0: "0 \<le> d" by (simp add: depth_def)
  have "\<forall>k\<le>length cs. 0 \<le> (d + unit_depth c) + depth (take k cs)"
  proof (intro allI impI)
    fix k assume "k \<le> length cs"
    then have "Suc k \<le> length (c # cs)" by simp
    with a have "0 \<le> d + depth (take (Suc k) (c # cs))" by blast
    then show "0 \<le> (d + unit_depth c) + depth (take k cs)"
      by (simp add: depth_def)
  qed
  with d0 show "0 \<le> d \<and> (\<forall>k\<le>length cs. 0 \<le> (d + unit_depth c) + depth (take k cs))"
    by blast
next
  assume b: "0 \<le> d \<and> (\<forall>k\<le>length cs. 0 \<le> (d + unit_depth c) + depth (take k cs))"
  show "\<forall>k\<le>length (c # cs). 0 \<le> d + depth (take k (c # cs))"
  proof (intro allI impI)
    fix k assume k: "k \<le> length (c # cs)"
    show "0 \<le> d + depth (take k (c # cs))"
    proof (cases k)
      case 0
      with b show ?thesis by (simp add: depth_def)
    next
      case (Suc m)
      with k have "m \<le> length cs" by simp
      with b have "0 \<le> (d + unit_depth c) + depth (take m cs)" by blast
      with Suc show ?thesis by (simp add: depth_def)
    qed
  qed
qed

lemma balanced_iff_depth:
  "0 \<le> d \<Longrightarrow> balanced d s \<longleftrightarrow> (\<forall>k\<le>length s. 0 \<le> d + depth (take k s)) \<and> d + depth s = 0"
proof (induction s arbitrary: d)
  case Nil
  then show ?case by (auto simp: depth_def)
next
  case (Cons c cs)
  have dd: "d + depth (c # cs) = (d + unit_depth c) + depth cs"
    by (simp add: depth_def)
  show ?case
  proof (cases "0 \<le> d + unit_depth c")
    case True
    from Cons.IH [OF True]
    have "balanced (d + unit_depth c) cs \<longleftrightarrow>
            (\<forall>k\<le>length cs. 0 \<le> (d + unit_depth c) + depth (take k cs))
            \<and> (d + unit_depth c) + depth cs = 0" .
    moreover have "balanced d (c # cs) = balanced (d + unit_depth c) cs"
      using True by (auto split: if_splits)
    ultimately show ?thesis
      unfolding all_le_Cons_depth dd using Cons.prems by simp
  next
    case False
    then have cb: "c = CHR '']''" and d1: "\<not> 0 \<le> d - 1"
      using Cons.prems by (auto split: if_splits)
    then have nb: "\<not> balanced d (c # cs)" by simp
    have "0 \<le> length cs" by simp
    with False have "\<not> (\<forall>k\<le>length cs. 0 \<le> (d + unit_depth c) + depth (take k cs))"
      by (metis add.right_neutral depth_take_0)
    with nb show ?thesis unfolding all_le_Cons_depth by blast
  qed
qed

lemma tag_loop_Some:
  "tag_lookahead_loop s cur nest = Some c \<Longrightarrow> 1 \<le> nest \<Longrightarrow>
     cur \<le> c \<and> c < length s \<and> s ! c = CHR '']''
     \<and> depth (take (Suc c) s) = depth (take cur s) - nest
     \<and> (\<forall>j. cur \<le> j \<and> j < c \<longrightarrow> 1 \<le> depth (take (Suc j) s) - depth (take cur s) + nest)"
proof (induction s cur nest rule: tag_lookahead_loop.induct)
  case (1 source cursor nest_level)
  from "1.prems"(1) have lt: "cursor < length source"
    by (subst (asm) tag_lookahead_loop.simps) (simp split: if_splits)
  note d = depth_take_Suc [OF lt]
  consider (op) "source ! cursor = CHR ''[''"
    | (cl0) "source ! cursor = CHR '']''" "nest_level - 1 = 0"
    | (cl) "source ! cursor = CHR '']''" "nest_level - 1 \<noteq> 0"
    | (other) "source ! cursor \<noteq> CHR ''[''" "source ! cursor \<noteq> CHR '']''"
    by blast
  then show ?case
  proof cases
    case op
    with "1.prems" lt have r: "tag_lookahead_loop source (cursor + 1) (nest_level + 1) = Some c"
      by (subst (asm) tag_lookahead_loop.simps) simp
    from "1.IH"(1) [OF lt op r] "1.prems"(2)
    have ih: "cursor + 1 \<le> c \<and> c < length source \<and> source ! c = CHR '']''
       \<and> depth (take (Suc c) source) = depth (take (cursor + 1) source) - (nest_level + 1)
       \<and> (\<forall>j. cursor + 1 \<le> j \<and> j < c \<longrightarrow>
             1 \<le> depth (take (Suc j) source) - depth (take (cursor + 1) source) + (nest_level + 1))"
      by simp
    have "\<forall>j. cursor \<le> j \<and> j < c \<longrightarrow>
             1 \<le> depth (take (Suc j) source) - depth (take cursor source) + nest_level"
    proof (intro allI impI)
      fix j assume j: "cursor \<le> j \<and> j < c"
      show "1 \<le> depth (take (Suc j) source) - depth (take cursor source) + nest_level"
      proof (cases "j = cursor")
        case True
        then show ?thesis using d op "1.prems"(2) by simp
      next
        case False
        with j have "cursor + 1 \<le> j \<and> j < c" by simp
        with ih have "1 \<le> depth (take (Suc j) source) - depth (take (cursor + 1) source) + (nest_level + 1)"
          by blast
        then show ?thesis using d op by simp
      qed
    qed
    with ih d op show ?thesis by simp
  next
    case cl0
    with "1.prems" lt have "c = cursor"
      by (subst (asm) tag_lookahead_loop.simps) simp
    with cl0 lt d show ?thesis by simp
  next
    case cl
    with "1.prems" lt have r: "tag_lookahead_loop source (cursor + 1) (nest_level - 1) = Some c"
      by (subst (asm) tag_lookahead_loop.simps) simp
    from cl "1.prems"(2) have n1: "1 \<le> nest_level - 1" by simp
    have nb: "source ! cursor \<noteq> CHR ''[''" using cl by simp
    from "1.IH"(2) [OF lt nb cl(1) cl(2) r n1]
    have ih: "cursor + 1 \<le> c \<and> c < length source \<and> source ! c = CHR '']''
       \<and> depth (take (Suc c) source) = depth (take (cursor + 1) source) - (nest_level - 1)
       \<and> (\<forall>j. cursor + 1 \<le> j \<and> j < c \<longrightarrow>
             1 \<le> depth (take (Suc j) source) - depth (take (cursor + 1) source) + (nest_level - 1))"
      by simp
    have "\<forall>j. cursor \<le> j \<and> j < c \<longrightarrow>
             1 \<le> depth (take (Suc j) source) - depth (take cursor source) + nest_level"
    proof (intro allI impI)
      fix j assume j: "cursor \<le> j \<and> j < c"
      show "1 \<le> depth (take (Suc j) source) - depth (take cursor source) + nest_level"
      proof (cases "j = cursor")
        case True
        then show ?thesis using d cl n1 by simp
      next
        case False
        with j have "cursor + 1 \<le> j \<and> j < c" by simp
        with ih have "1 \<le> depth (take (Suc j) source) - depth (take (cursor + 1) source) + (nest_level - 1)"
          by blast
        then show ?thesis using d cl by simp
      qed
    qed
    with ih d cl show ?thesis by simp
  next
    case other
    with "1.prems" lt have r: "tag_lookahead_loop source (cursor + 1) nest_level = Some c"
      by (subst (asm) tag_lookahead_loop.simps) simp
    from "1.IH"(3) [OF lt other r "1.prems"(2)]
    have ih: "cursor + 1 \<le> c \<and> c < length source \<and> source ! c = CHR '']''
       \<and> depth (take (Suc c) source) = depth (take (cursor + 1) source) - nest_level
       \<and> (\<forall>j. cursor + 1 \<le> j \<and> j < c \<longrightarrow>
             1 \<le> depth (take (Suc j) source) - depth (take (cursor + 1) source) + nest_level)"
      by simp
    have "\<forall>j. cursor \<le> j \<and> j < c \<longrightarrow>
             1 \<le> depth (take (Suc j) source) - depth (take cursor source) + nest_level"
    proof (intro allI impI)
      fix j assume j: "cursor \<le> j \<and> j < c"
      show "1 \<le> depth (take (Suc j) source) - depth (take cursor source) + nest_level"
      proof (cases "j = cursor")
        case True
        then show ?thesis using d other "1.prems"(2) by simp
      next
        case False
        with j have "cursor + 1 \<le> j \<and> j < c" by simp
        with ih have "1 \<le> depth (take (Suc j) source) - depth (take (cursor + 1) source) + nest_level"
          by blast
        then show ?thesis using d other by simp
      qed
    qed
    with ih d other show ?thesis by simp
  qed
qed


lemma tag_loop_None:
  "tag_lookahead_loop s cur nest = None \<Longrightarrow> 1 \<le> nest \<Longrightarrow>
     (\<forall>j. cur \<le> j \<and> j < length s \<longrightarrow> 1 \<le> depth (take (Suc j) s) - depth (take cur s) + nest)"
proof (induction s cur nest rule: tag_lookahead_loop.induct)
  case (1 source cursor nest_level)
  show ?case
  proof (cases "cursor < length source")
    case False
    then show ?thesis by simp
  next
    case lt: True
    note d = depth_take_Suc [OF lt]
    define nest' where "nest' = nest_level + unit_depth (source ! cursor)"
    have rec: "tag_lookahead_loop source (cursor + 1) nest' = None \<and> 1 \<le> nest'
       \<and> (\<forall>j. cursor + 1 \<le> j \<and> j < length source \<longrightarrow>
             1 \<le> depth (take (Suc j) source) - depth (take (cursor + 1) source) + nest')"
    proof -
      consider (op) "source ! cursor = CHR ''[''"
        | (cl) "source ! cursor = CHR '']''"
        | (other) "source ! cursor \<noteq> CHR ''[''" "source ! cursor \<noteq> CHR '']''"
        by blast
      then show ?thesis
      proof cases
        case op
        with "1.prems" lt have r: "tag_lookahead_loop source (cursor + 1) (nest_level + 1) = None"
          by (subst (asm) tag_lookahead_loop.simps) simp
        from "1.IH"(1) [OF lt op r] "1.prems"(2) r op show ?thesis
          by (simp add: nest'_def)
      next
        case cl
        with "1.prems" lt have nz: "nest_level - 1 \<noteq> 0"
          by (subst (asm) tag_lookahead_loop.simps) (simp split: if_splits)
        with cl "1.prems" lt have r: "tag_lookahead_loop source (cursor + 1) (nest_level - 1) = None"
          by (subst (asm) tag_lookahead_loop.simps) simp
        from nz "1.prems"(2) have n1: "1 \<le> nest_level - 1" by simp
        have nb: "source ! cursor \<noteq> CHR ''[''" using cl by simp
        from "1.IH"(2) [OF lt nb cl nz r n1] r cl n1 show ?thesis
          by (simp add: nest'_def)
      next
        case other
        with "1.prems" lt have r: "tag_lookahead_loop source (cursor + 1) nest_level = None"
          by (subst (asm) tag_lookahead_loop.simps) simp
        from "1.IH"(3) [OF lt other r "1.prems"(2)] r other "1.prems"(2) show ?thesis
          by (simp add: nest'_def)
      qed
    qed
    show ?thesis
    proof (intro allI impI)
      fix j assume j: "cursor \<le> j \<and> j < length source"
      show "1 \<le> depth (take (Suc j) source) - depth (take cursor source) + nest_level"
      proof (cases "j = cursor")
        case True
        with rec d show ?thesis by (simp add: nest'_def)
      next
        case False
        with j have "cursor + 1 \<le> j \<and> j < length source" by simp
        with rec have "1 \<le> depth (take (Suc j) source) - depth (take (cursor + 1) source) + nest'"
          by blast
        with d show ?thesis by (simp add: nest'_def)
      qed
    qed
  qed
qed

lemma last_rise:
  "k \<le> length s \<Longrightarrow> v < depth (take k s) \<Longrightarrow> 0 \<le> v \<Longrightarrow>
     \<exists>i<k. s ! i = CHR ''['' \<and> depth (take i s) = v
            \<and> (\<forall>j. i < j \<and> j \<le> k \<longrightarrow> v < depth (take j s))"
proof (induction k)
  case 0
  then show ?case by simp
next
  case (Suc k)
  from Suc.prems have lt: "k < length s" by simp
  note d = depth_take_Suc [OF lt]
  show ?case
  proof (cases "v < depth (take k s)")
    case True
    from Suc.IH [OF _ True Suc.prems(3)] lt
    obtain i where i: "i < k" "s ! i = CHR ''[''" "depth (take i s) = v"
      "\<forall>j. i < j \<and> j \<le> k \<longrightarrow> v < depth (take j s)"
      by auto
    have "\<forall>j. i < j \<and> j \<le> Suc k \<longrightarrow> v < depth (take j s)"
    proof (intro allI impI)
      fix j assume j: "i < j \<and> j \<le> Suc k"
      show "v < depth (take j s)"
      proof (cases "j = Suc k")
        case True
        with Suc.prems show ?thesis by simp
      next
        case False
        with j have "i < j \<and> j \<le> k" by simp
        with i(4) show ?thesis by blast
      qed
    qed
    with i show ?thesis by (intro exI [of _ i]) simp
  next
    case False
    with Suc.prems(2) d have op: "s ! k = CHR ''[''" and dv: "depth (take k s) = v"
      by (auto split: if_splits)
    have "\<forall>j. k < j \<and> j \<le> Suc k \<longrightarrow> v < depth (take j s)"
    proof (intro allI impI)
      fix j assume "k < j \<and> j \<le> Suc k"
      then have "j = Suc k" by simp
      with Suc.prems show "v < depth (take j s)" by simp
    qed
    with op dv show ?thesis by (intro exI [of _ k]) simp
  qed
qed

lemma tag_lookahead_Inr:
  assumes "tag_lookahead s i = Inr c" and "i < length s" and "s ! i = CHR ''[''"
  shows "i < c \<and> c < length s \<and> s ! c = CHR '']''
     \<and> depth (take (Suc c) s) = depth (take i s)
     \<and> (\<forall>j. i < j \<and> j \<le> c \<longrightarrow> depth (take i s) < depth (take j s))"
proof -
  from assms(1) have r: "tag_lookahead_loop s (i + 1) 1 = Some c"
    by (simp add: tag_lookahead_def split: option.splits)
  have one: "(1::int) \<le> 1" by simp
  note f = tag_loop_Some [OF r one]
  have d: "depth (take (i + 1) s) = depth (take i s) + 1"
    using depth_take_Suc [OF assms(2)] assms(3) by simp
  have "\<forall>j. i < j \<and> j \<le> c \<longrightarrow> depth (take i s) < depth (take j s)"
  proof (intro allI impI)
    fix j assume j: "i < j \<and> j \<le> c"
    show "depth (take i s) < depth (take j s)"
    proof (cases "j = i + 1")
      case True
      with d show ?thesis by simp
    next
      case False
      with j obtain j' where j': "j = Suc j'" "i + 1 \<le> j'" "j' < c"
        by (cases j) auto
      with f have "1 \<le> depth (take (Suc j') s) - depth (take (i + 1) s) + 1" by blast
      with d j' show ?thesis by simp
    qed
  qed
  with f d show ?thesis by simp
qed

lemma tag_lookahead_Inl:
  assumes "tag_lookahead s i = Inl e" and "i < length s" and "s ! i = CHR ''[''"
  shows "e = MismatchedBracket i
     \<and> (\<forall>j. i < j \<and> j \<le> length s \<longrightarrow> depth (take i s) < depth (take j s))"
proof -
  from assms(1) have r: "tag_lookahead_loop s (i + 1) 1 = None" and e: "e = MismatchedBracket i"
    by (auto simp: tag_lookahead_def split: option.splits)
  have one: "(1::int) \<le> 1" by simp
  note f = tag_loop_None [OF r one]
  have d: "depth (take (i + 1) s) = depth (take i s) + 1"
    using depth_take_Suc [OF assms(2)] assms(3) by simp
  have "\<forall>j. i < j \<and> j \<le> length s \<longrightarrow> depth (take i s) < depth (take j s)"
  proof (intro allI impI)
    fix j assume j: "i < j \<and> j \<le> length s"
    show "depth (take i s) < depth (take j s)"
    proof (cases "j = i + 1")
      case True
      with d show ?thesis by simp
    next
      case False
      with j obtain j' where j': "j = Suc j'" "i + 1 \<le> j'" "j' < length s"
        by (cases j) auto
      with f have "1 \<le> depth (take (Suc j') s) - depth (take (i + 1) s) + 1" by blast
      with d j' show ?thesis by simp
    qed
  qed
  with e show ?thesis by simp
qed

lemma tag_lookahead_inj:
  assumes "tag_lookahead s i = Inr c" and "tag_lookahead s i' = Inr c"
    and "i < length s" and "s ! i = CHR ''[''" and "i' < length s" and "s ! i' = CHR ''[''"
  shows "i = i'"
proof -
  note a = tag_lookahead_Inr [OF assms(1) assms(3) assms(4)]
  note b = tag_lookahead_Inr [OF assms(2) assms(5) assms(6)]
  show ?thesis
  proof (rule ccontr)
    assume ne: "i \<noteq> i'"
    show False
    proof (cases "i < i'")
      case True
      with b have "i < i' \<and> i' \<le> c" by simp
      with a have "depth (take i s) < depth (take i' s)" by blast
      with a b show False by simp
    next
      case False
      with ne a have "i' < i \<and> i \<le> c" by simp
      with b have "depth (take i' s) < depth (take i s)" by blast
      with a b show False by simp
    qed
  qed
qed

lemma tag_lookahead_is:
  assumes "i < k" and "k < length s" and "s ! i = CHR ''[''"
    and "depth (take (Suc k) s) = depth (take i s)"
    and "\<forall>j. i < j \<and> j \<le> k \<longrightarrow> depth (take i s) < depth (take j s)"
  shows "tag_lookahead s i = Inr k"
proof (cases "tag_lookahead s i")
  case (Inl e)
  from assms have il: "i < length s" by simp
  from tag_lookahead_Inl [OF Inl il assms(3)] assms(1,2)
  have "depth (take i s) < depth (take (Suc k) s)" by simp
  with assms(4) show ?thesis by simp
next
  case (Inr c)
  from assms have il: "i < length s" by simp
  note a = tag_lookahead_Inr [OF Inr il assms(3)]
  have "c = k"
  proof (rule ccontr)
    assume ne: "c \<noteq> k"
    show False
    proof (cases "c < k")
      case True
      with a have "i < Suc c \<and> Suc c \<le> k" by simp
      with assms(5) have "depth (take i s) < depth (take (Suc c) s)" by blast
      with a show False by simp
    next
      case False
      with ne have "i < Suc k \<and> Suc k \<le> c" using assms(1) by simp
      with a have "depth (take i s) < depth (take (Suc k) s)" by blast
      with assms(4) show False by simp
    qed
  qed
  with Inr show ?thesis by simp
qed

section \<open>The bracket map of a well-formed program\<close>

text \<open>
  The loop invariant of \<^verbatim>\<open>construct_tags\<close> after the first \<open>m\<close> indices: every entry pairs a
  loop-start with the result of its forward scan, and every bracket met so far has an entry.
\<close>

definition tags_inv :: "string \<Rightarrow> nat \<Rightarrow> (nat \<rightharpoonup> nat) \<Rightarrow> bool" where
  "tags_inv s m tags \<longleftrightarrow>
     (\<forall>i j. tags i = Some j \<longrightarrow>
        (i < m \<and> i < length s \<and> s ! i = CHR ''['' \<and> tag_lookahead s i = Inr j)
      \<or> (j < m \<and> j < length s \<and> s ! j = CHR ''['' \<and> tag_lookahead s j = Inr i))
     \<and> (\<forall>i<m. s ! i = CHR ''['' \<longrightarrow>
           (\<exists>c. tag_lookahead s i = Inr c \<and> tags i = Some c \<and> tags c \<noteq> None))
     \<and> (\<forall>i<m. s ! i = CHR '']'' \<longrightarrow> tags i \<noteq> None)"

lemma tags_inv_empty: "tags_inv s 0 Map.empty"
  by (simp add: tags_inv_def)

lemma tags_inv_open:
  assumes inv: "tags_inv s m tags" and m: "m < length s" and op: "s ! m = CHR ''[''"
    and la: "tag_lookahead s m = Inr nx"
  shows "tags_inv s (Suc m) (tags(m \<mapsto> nx, nx \<mapsto> m))"
proof -
  note f = tag_lookahead_Inr [OF la m op]
  let ?t = "tags(m \<mapsto> nx, nx \<mapsto> m)"
  have a: "\<forall>i j. ?t i = Some j \<longrightarrow>
        (i < Suc m \<and> i < length s \<and> s ! i = CHR ''['' \<and> tag_lookahead s i = Inr j)
      \<or> (j < Suc m \<and> j < length s \<and> s ! j = CHR ''['' \<and> tag_lookahead s j = Inr i)"
  proof (intro allI impI)
    fix i j assume h: "?t i = Some j"
    consider (nx) "i = nx" | (m) "i \<noteq> nx" "i = m" | (old) "i \<noteq> nx" "i \<noteq> m" by blast
    then show "(i < Suc m \<and> i < length s \<and> s ! i = CHR ''['' \<and> tag_lookahead s i = Inr j)
      \<or> (j < Suc m \<and> j < length s \<and> s ! j = CHR ''['' \<and> tag_lookahead s j = Inr i)"
    proof cases
      case nx
      with h have "j = m" by simp
      with nx m op la show ?thesis by simp
    next
      case m
      with h have "j = nx" by simp
      with m assms show ?thesis by simp
    next
      case old
      with h have "tags i = Some j" by simp
      with inv have "(i < m \<and> i < length s \<and> s ! i = CHR ''['' \<and> tag_lookahead s i = Inr j)
        \<or> (j < m \<and> j < length s \<and> s ! j = CHR ''['' \<and> tag_lookahead s j = Inr i)"
        unfolding tags_inv_def by blast
      then show ?thesis by auto
    qed
  qed
  have b: "\<forall>i<Suc m. s ! i = CHR ''['' \<longrightarrow>
           (\<exists>c. tag_lookahead s i = Inr c \<and> ?t i = Some c \<and> ?t c \<noteq> None)"
  proof (intro allI impI)
    fix i assume i: "i < Suc m" and o: "s ! i = CHR ''[''"
    from f o have ne: "i \<noteq> nx" by auto
    show "\<exists>c. tag_lookahead s i = Inr c \<and> ?t i = Some c \<and> ?t c \<noteq> None"
    proof (cases "i = m")
      case True
      with la ne show ?thesis by simp
    next
      case False
      with i have "i < m" by simp
      with inv o obtain c where c: "tag_lookahead s i = Inr c" "tags i = Some c" "tags c \<noteq> None"
        unfolding tags_inv_def by blast
      with False ne show ?thesis by simp
    qed
  qed
  have c: "\<forall>i<Suc m. s ! i = CHR '']'' \<longrightarrow> ?t i \<noteq> None"
  proof (intro allI impI)
    fix i assume i: "i < Suc m" and o: "s ! i = CHR '']''"
    with op have "i < m" by (cases "i = m") auto
    with inv o have "tags i \<noteq> None" unfolding tags_inv_def by blast
    then show "?t i \<noteq> None" by simp
  qed
  from a b c show ?thesis unfolding tags_inv_def by blast
qed

lemma tags_inv_skip:
  assumes inv: "tags_inv s m tags"
    and nop: "s ! m \<noteq> CHR ''[''" and cl: "s ! m = CHR '']'' \<longrightarrow> tags m \<noteq> None"
  shows "tags_inv s (Suc m) tags"
proof -
  have a: "\<forall>i j. tags i = Some j \<longrightarrow>
        (i < Suc m \<and> i < length s \<and> s ! i = CHR ''['' \<and> tag_lookahead s i = Inr j)
      \<or> (j < Suc m \<and> j < length s \<and> s ! j = CHR ''['' \<and> tag_lookahead s j = Inr i)"
  proof (intro allI impI)
    fix i j assume "tags i = Some j"
    with inv have "(i < m \<and> i < length s \<and> s ! i = CHR ''['' \<and> tag_lookahead s i = Inr j)
        \<or> (j < m \<and> j < length s \<and> s ! j = CHR ''['' \<and> tag_lookahead s j = Inr i)"
      unfolding tags_inv_def by blast
    then show "(i < Suc m \<and> i < length s \<and> s ! i = CHR ''['' \<and> tag_lookahead s i = Inr j)
      \<or> (j < Suc m \<and> j < length s \<and> s ! j = CHR ''['' \<and> tag_lookahead s j = Inr i)"
      by auto
  qed
  have b: "\<forall>i<Suc m. s ! i = CHR ''['' \<longrightarrow>
           (\<exists>c. tag_lookahead s i = Inr c \<and> tags i = Some c \<and> tags c \<noteq> None)"
  proof (intro allI impI)
    fix i assume i: "i < Suc m" and o: "s ! i = CHR ''[''"
    with nop have "i < m" by (cases "i = m") auto
    with inv o show "\<exists>c. tag_lookahead s i = Inr c \<and> tags i = Some c \<and> tags c \<noteq> None"
      unfolding tags_inv_def by blast
  qed
  have c: "\<forall>i<Suc m. s ! i = CHR '']'' \<longrightarrow> tags i \<noteq> None"
  proof (intro allI impI)
    fix i assume i: "i < Suc m" and o: "s ! i = CHR '']''"
    show "tags i \<noteq> None"
    proof (cases "i = m")
      case True
      with cl o show ?thesis by simp
    next
      case False
      with i have "i < m" by simp
      with inv o show ?thesis unfolding tags_inv_def by blast
    qed
  qed
  from a b c show ?thesis unfolding tags_inv_def by blast
qed

lemma construct_tags_loop_inv:
  "tags_inv s m tags \<Longrightarrow> n \<le> length s \<Longrightarrow>
   construct_tags_loop s [m..<n] tags = Inr tags' \<Longrightarrow> tags_inv s (max m n) tags'"
proof (induction "n - m" arbitrary: m tags)
  case 0
  then show ?case by (simp add: max_def)
next
  case (Suc k)
  then have lt: "m < n" and k: "k = n - Suc m" by simp_all
  from lt Suc.prems have ml: "m < length s" by simp
  have up: "[m..<n] = m # [Suc m..<n]" using lt by (simp add: upt_conv_Cons)
  have mx: "max (Suc m) n = max m n" using lt by simp
  show ?case
  proof (cases "s ! m = CHR ''[''")
    case True
    with Suc.prems(3) up obtain nx where nx: "tag_lookahead s m = Inr nx"
      and r: "construct_tags_loop s [Suc m..<n] (tags(m \<mapsto> nx, nx \<mapsto> m)) = Inr tags'"
      by (auto split: sum.splits)
    from tags_inv_open [OF Suc.prems(1) ml True nx]
    have "tags_inv s (Suc m) (tags(m \<mapsto> nx, nx \<mapsto> m))" .
    from Suc.hyps(1) [OF k this Suc.prems(2) r] mx show ?thesis by simp
  next
    case False
    with Suc.prems(3) up have r: "construct_tags_loop s [Suc m..<n] tags = Inr tags'"
      and cl: "s ! m = CHR '']'' \<longrightarrow> tags m \<noteq> None"
      by (auto split: if_splits)
    from tags_inv_skip [OF Suc.prems(1) False cl]
    have "tags_inv s (Suc m) tags" .
    from Suc.hyps(1) [OF k this Suc.prems(2) r] mx show ?thesis by simp
  qed
qed


definition resolves :: "string \<Rightarrow> bool" where
  "resolves s \<longleftrightarrow>
     (\<forall>i<length s. s ! i = CHR ''['' \<longrightarrow> (\<exists>c. tag_lookahead s i = Inr c))
     \<and> (\<forall>k<length s. s ! k = CHR '']'' \<longrightarrow>
           (\<exists>i<k. s ! i = CHR ''['' \<and> tag_lookahead s i = Inr k))"

lemma construct_tags_loop_total:
  "tags_inv s m tags \<Longrightarrow> n \<le> length s \<Longrightarrow> resolves s \<Longrightarrow>
     \<exists>tags'. construct_tags_loop s [m..<n] tags = Inr tags'"
proof (induction "n - m" arbitrary: m tags)
  case 0
  then show ?case by simp
next
  case (Suc k)
  then have lt: "m < n" and k: "k = n - Suc m" by simp_all
  from lt Suc.prems have ml: "m < length s" by simp
  have up: "[m..<n] = m # [Suc m..<n]" using lt by (simp add: upt_conv_Cons)
  show ?case
  proof (cases "s ! m = CHR ''[''")
    case True
    with Suc.prems(3) ml obtain nx where nx: "tag_lookahead s m = Inr nx"
      unfolding resolves_def by blast
    from tags_inv_open [OF Suc.prems(1) ml True nx]
    have "tags_inv s (Suc m) (tags(m \<mapsto> nx, nx \<mapsto> m))" .
    from Suc.hyps(1) [OF k this Suc.prems(2,3)] True nx up show ?thesis by simp
  next
    case False
    have cl: "s ! m = CHR '']'' \<longrightarrow> tags m \<noteq> None"
    proof
      assume c: "s ! m = CHR '']''"
      with Suc.prems(3) ml obtain i where i: "i < m" "s ! i = CHR ''[''" "tag_lookahead s i = Inr m"
        unfolding resolves_def by blast
      with Suc.prems(1) obtain c where "tag_lookahead s i = Inr c \<and> tags i = Some c \<and> tags c \<noteq> None"
        unfolding tags_inv_def by blast
      with i show "tags m \<noteq> None" by simp
    qed
    from tags_inv_skip [OF Suc.prems(1) False cl]
    have "tags_inv s (Suc m) tags" .
    from Suc.hyps(1) [OF k this Suc.prems(2,3)] False cl up show ?thesis by auto
  qed
qed

lemma construct_tags_inv:
  "construct_tags s = Inr tags \<Longrightarrow> tags_inv s (length s) tags"
  using construct_tags_loop_inv [OF tags_inv_empty, of "length s" s tags]
  by (simp add: construct_tags_def)


lemma well_formed_depth:
  "well_formed s \<longleftrightarrow> (\<forall>k\<le>length s. 0 \<le> depth (take k s)) \<and> depth s = 0"
  using balanced_iff_depth [of 0 s] by (simp add: well_formed_def)

lemma well_formed_resolves:
  assumes "well_formed s"
  shows "resolves s"
proof -
  from assms have nn: "\<forall>k\<le>length s. 0 \<le> depth (take k s)" and z: "depth s = 0"
    by (simp_all add: well_formed_depth)
  have a: "\<forall>i<length s. s ! i = CHR ''['' \<longrightarrow> (\<exists>c. tag_lookahead s i = Inr c)"
  proof (intro allI impI)
    fix i assume i: "i < length s" and o: "s ! i = CHR ''[''"
    show "\<exists>c. tag_lookahead s i = Inr c"
    proof (cases "tag_lookahead s i")
      case (Inl e)
      from i have "i < length s \<and> length s \<le> length s" by simp
      with tag_lookahead_Inl [OF Inl i o]
      have "depth (take i s) < depth (take (length s) s)" by blast
      moreover from nn i have "0 \<le> depth (take i s)" by simp
      ultimately show ?thesis using z by simp
    next
      case (Inr c)
      then show ?thesis by blast
    qed
  qed
  have b: "\<forall>k<length s. s ! k = CHR '']'' \<longrightarrow>
           (\<exists>i<k. s ! i = CHR ''['' \<and> tag_lookahead s i = Inr k)"
  proof (intro allI impI)
    fix k assume k: "k < length s" and c: "s ! k = CHR '']''"
    define v where "v = depth (take (Suc k) s)"
    from nn k have v0: "0 \<le> v" by (simp add: v_def)
    from depth_take_Suc [OF k] c have vk: "v < depth (take k s)" by (simp add: v_def)
    from k have kl: "k \<le> length s" by simp
    from last_rise [OF kl vk v0] obtain i where i: "i < k" "s ! i = CHR ''[''"
      "depth (take i s) = v" "\<forall>j. i < j \<and> j \<le> k \<longrightarrow> v < depth (take j s)"
      by blast
    have "tag_lookahead s i = Inr k"
      using i k by (intro tag_lookahead_is) (simp_all add: v_def)
    with i show "\<exists>i<k. s ! i = CHR ''['' \<and> tag_lookahead s i = Inr k" by blast
  qed
  from a b show ?thesis unfolding resolves_def by blast
qed


lemma construct_tags_total:
  "well_formed s \<Longrightarrow> \<exists>tags. construct_tags s = Inr tags"
  using construct_tags_loop_total [OF tags_inv_empty le_refl well_formed_resolves]
  by (simp add: construct_tags_def)




lemma tags_inv_final_cases:
  assumes inv: "tags_inv s (length s) tags" and t: "tags i = Some j"
  shows "(i < length s \<and> s ! i = CHR ''['' \<and> tag_lookahead s i = Inr j
            \<and> i < j \<and> j < length s \<and> s ! j = CHR '']'')
       \<or> (j < length s \<and> s ! j = CHR ''['' \<and> tag_lookahead s j = Inr i
            \<and> j < i \<and> i < length s \<and> s ! i = CHR '']'')"
proof -
  from inv t
  have "(i < length s \<and> s ! i = CHR ''['' \<and> tag_lookahead s i = Inr j)
      \<or> (j < length s \<and> s ! j = CHR ''['' \<and> tag_lookahead s j = Inr i)"
    unfolding tags_inv_def by blast
  then show ?thesis
  proof
    assume a: "i < length s \<and> s ! i = CHR ''['' \<and> tag_lookahead s i = Inr j"
    with tag_lookahead_Inr [of s i j] show ?thesis by blast
  next
    assume b: "j < length s \<and> s ! j = CHR ''['' \<and> tag_lookahead s j = Inr i"
    with tag_lookahead_Inr [of s j i] show ?thesis by blast
  qed
qed

lemma tags_inv_symmetric:
  assumes inv: "tags_inv s (length s) tags" and t: "tags i = Some j"
  shows "tags j = Some i"
proof -
  from tags_inv_final_cases [OF inv t] show ?thesis
  proof
    assume a: "i < length s \<and> s ! i = CHR ''['' \<and> tag_lookahead s i = Inr j
            \<and> i < j \<and> j < length s \<and> s ! j = CHR '']''"
    with inv obtain c where c: "tag_lookahead s i = Inr c" "tags i = Some c" "tags c \<noteq> None"
      unfolding tags_inv_def by blast
    with a have "tags j \<noteq> None" by simp
    then obtain i' where i': "tags j = Some i'" by blast
    from tags_inv_final_cases [OF inv i'] a
    have "i' < length s \<and> s ! i' = CHR ''['' \<and> tag_lookahead s i' = Inr j" by auto
    with a have "i = i'" by (intro tag_lookahead_inj [of s i j i']) simp_all
    with i' show ?thesis by simp
  next
    assume b: "j < length s \<and> s ! j = CHR ''['' \<and> tag_lookahead s j = Inr i
            \<and> j < i \<and> i < length s \<and> s ! i = CHR '']''"
    with inv obtain c where "tag_lookahead s j = Inr c" "tags j = Some c"
      unfolding tags_inv_def by blast
    with b show ?thesis by simp
  qed
qed

lemma tags_inv_dom:
  assumes inv: "tags_inv s (length s) tags"
  shows "dom tags = {i. i < length s \<and> (s ! i = CHR ''['' \<or> s ! i = CHR '']'')}"
proof (intro set_eqI iffI)
  fix i assume "i \<in> dom tags"
  then obtain j where "tags i = Some j" by blast
  from tags_inv_final_cases [OF inv this]
  show "i \<in> {i. i < length s \<and> (s ! i = CHR ''['' \<or> s ! i = CHR '']'')}" by blast
next
  fix i assume "i \<in> {i. i < length s \<and> (s ! i = CHR ''['' \<or> s ! i = CHR '']'')}"
  then have i: "i < length s" and b: "s ! i = CHR ''['' \<or> s ! i = CHR '']''" by simp_all
  from b have "tags i \<noteq> None"
  proof
    assume "s ! i = CHR ''[''"
    with inv i obtain c where "tags i = Some c" unfolding tags_inv_def by blast
    then show ?thesis by simp
  next
    assume "s ! i = CHR '']''"
    with inv i show ?thesis unfolding tags_inv_def by blast
  qed
  then show "i \<in> dom tags" by blast
qed

text \<open>
  Claim C4.  For a well-formed program (balanced brackets) \<^verbatim>\<open>construct_tags\<close> returns a map;
  its domain is exactly the set of positions holding a loop-start or a loop-end; it is
  symmetric (\<open>tags[tags[i]] = i\<close> for every key \<open>i\<close>); the entry of a loop-start is a
  loop-end position strictly after it, and the entry of a loop-end is a loop-start position
  strictly before it.
\<close>

theorem construct_tags_symmetric_map:
  assumes "well_formed program"
  shows "\<exists>tags. construct_tags program = Inr tags
      \<and> dom tags = {i. i < length program \<and> (program ! i = CHR ''['' \<or> program ! i = CHR '']'')}
      \<and> (\<forall>i j. tags i = Some j \<longrightarrow> tags j = Some i)
      \<and> (\<forall>i j. tags i = Some j \<and> program ! i = CHR ''[''
             \<longrightarrow> i < j \<and> j < length program \<and> program ! j = CHR '']'')
      \<and> (\<forall>i j. tags i = Some j \<and> program ! i = CHR '']''
             \<longrightarrow> j < i \<and> program ! j = CHR ''['')"
proof -
  from construct_tags_total [OF assms] obtain tags where t: "construct_tags program = Inr tags"
    by blast
  note inv = construct_tags_inv [OF t]
  have sym: "\<forall>i j. tags i = Some j \<longrightarrow> tags j = Some i"
    using tags_inv_symmetric [OF inv] by blast
  have fwd: "\<forall>i j. tags i = Some j \<and> program ! i = CHR ''[''
             \<longrightarrow> i < j \<and> j < length program \<and> program ! j = CHR '']''"
    using tags_inv_final_cases [OF inv] by fastforce
  have bwd: "\<forall>i j. tags i = Some j \<and> program ! i = CHR '']''
             \<longrightarrow> j < i \<and> program ! j = CHR ''[''"
    using tags_inv_final_cases [OF inv] by fastforce
  from t tags_inv_dom [OF inv] sym fwd bwd show ?thesis by blast
qed

theorem construct_tags_symmetric_map_witness:
  "well_formed ''[+]''
   \<and> map_sum id (\<lambda>tags. (tags 0, tags 1, tags 2)) (construct_tags ''[+]'')
       = Inr (Some 2, None, Some 0)"
proof -
  have h: "well_formed ''[+]''"
    by (simp add: well_formed_def)
  from construct_tags_symmetric_map [OF h] obtain tags where
    t: "construct_tags ''[+]'' = Inr tags"
    and d: "dom tags = {i. i < length ''[+]'' \<and> (''[+]'' ! i = CHR ''['' \<or> ''[+]'' ! i = CHR '']'')}"
    and sym: "\<forall>i j. tags i = Some j \<longrightarrow> tags j = Some i"
    and fwd: "\<forall>i j. tags i = Some j \<and> ''[+]'' ! i = CHR ''[''
               \<longrightarrow> i < j \<and> j < length ''[+]'' \<and> ''[+]'' ! j = CHR '']''"
    by blast
  from d have "0 \<in> dom tags" by simp
  then obtain j where j: "tags 0 = Some j" by blast
  with fwd have "0 < j \<and> j < 3 \<and> ''[+]'' ! j = CHR '']''" by fastforce
  then have "j = 2"
    by (cases "j = 1") auto
  with j have a: "tags 0 = Some 2" by simp
  with sym have b: "tags 2 = Some 0" by blast
  from d have "1 \<notin> dom tags" by simp
  then have c: "tags 1 = None" by blast
  from h t a b c show ?thesis by simp
qed

section \<open>The interpreter\<close>

text \<open>
  The value \<^verbatim>\<open>io_getchar\<close> returns is either an \<^verbatim>\<open>int\<close> (\<^verbatim>\<open>ord(raw)\<close>, from standard input) or a
  \<^verbatim>\<open>str\<close> (an element of \<^verbatim>\<open>_iobuf\<close>, which \<^verbatim>\<open>io_rebuffer\<close> fills with \<^verbatim>\<open>list(unused)\<close>, the
  one-character strings of a \<^verbatim>\<open>str\<close>).

  The channels are the global buffer \<^verbatim>\<open>_iobuf\<close>, the unread text of standard input and the
  code points written to standard output.  The interpreter's state adds the local
  variables of \<^verbatim>\<open>interpret\<close>: the byte array \<^verbatim>\<open>machine\<close>, \<^verbatim>\<open>pointer\<close> and \<^verbatim>\<open>cursor\<close>.
\<close>

datatype pyobj = PyInt int | PyStr string

record channels =
  iobuf :: string
  stdin :: string
  stdout :: "int list"

record interp_state = channels +
  machine :: "int list"
  pointer :: int
  cursor :: nat

definition io_rebuffer :: "string \<Rightarrow> 'a channels_scheme \<Rightarrow> 'a channels_scheme" where
  "io_rebuffer unused st = st\<lparr>iobuf := iobuf st @ unused\<rparr>"

text \<open>
  \<^verbatim>\<open>io_getchar\<close>: a buffered element is returned as it is; otherwise one character is read
  and encoded, and an encoding of more than one byte (a code point from 128 on) or an
  empty read is an error.
\<close>

definition io_getchar ::
  "'a channels_scheme \<Rightarrow> (error \<times> 'a channels_scheme) + (pyobj \<times> 'a channels_scheme)" where
  "io_getchar st =
     (case iobuf st of
        char # rest \<Rightarrow> Inr (PyStr [char], st\<lparr>iobuf := rest\<rparr>)
      | [] \<Rightarrow>
          (case stdin st of
             [] \<Rightarrow> Inl (EndOfInput, st)
           | raw # rest \<Rightarrow>
               if (128::nat) \<le> of_char raw then Inl (MultibyteInput, st\<lparr>stdin := rest\<rparr>)
               else Inr (PyInt (of_char raw), st\<lparr>stdin := rest\<rparr>)))"

text \<open>
  Subscripts of the byte array.  A negative subscript from \<open>- len\<close> on counts from the end;
  any other subscript outside \<open>0..len-1\<close> raises \<^verbatim>\<open>IndexError\<close>.  A store checks the value
  first: a \<^verbatim>\<open>str\<close> is a \<^verbatim>\<open>TypeError\<close>, an \<^verbatim>\<open>int\<close> outside \<open>0..255\<close> a \<^verbatim>\<open>ValueError\<close>.
\<close>

definition py_index :: "'a list \<Rightarrow> int \<Rightarrow> nat option" where
  "py_index xs i =
     (if 0 \<le> i \<and> i < int (length xs) then Some (nat i)
      else if i < 0 \<and> - int (length xs) \<le> i then Some (nat (int (length xs) + i))
      else None)"

definition cell_get :: "int list \<Rightarrow> int \<Rightarrow> error + int" where
  "cell_get tape i =
     (case py_index tape i of
        None \<Rightarrow> Inl IndexError
      | Some j \<Rightarrow> Inr (tape ! j))"

definition cell_set :: "int list \<Rightarrow> int \<Rightarrow> pyobj \<Rightarrow> error + int list" where
  "cell_set tape i v =
     (case v of
        PyStr s \<Rightarrow> Inl TypeError
      | PyInt x \<Rightarrow>
          if x < 0 \<or> 256 \<le> x then Inl ValueError
          else (case py_index tape i of
                  None \<Rightarrow> Inl IndexError
                | Some j \<Rightarrow> Inr (tape[j := x])))"

text \<open>
  The \<^verbatim>\<open>match\<close> statement of the loop body, one branch per token, in the order of the source.
  A failure carries the state at the moment of the \<^verbatim>\<open>raise\<close>.
\<close>

definition exec_token ::
  "string \<Rightarrow> (nat \<rightharpoonup> nat) \<Rightarrow> int \<Rightarrow> interp_state \<Rightarrow> (error \<times> interp_state) + interp_state" where
  "exec_token source loop_tags cells st =
     (let char = source ! cursor st in
      if char = CHR ''>'' then
        (let st1 = st\<lparr>pointer := pointer st + 1\<rparr>
         in if pointer st1 = cells then Inl (PointerOutOfRange cells, st1) else Inr st1)
      else if char = CHR ''<'' then
        (let st1 = st\<lparr>pointer := pointer st - 1\<rparr>
         in if pointer st1 < 0 then Inl (PointerOutOfRange (- 1), st1) else Inr st1)
      else if char = CHR ''+'' then
        (case cell_get (machine st) (pointer st) of
           Inl e \<Rightarrow> Inl (e, st)
         | Inr v \<Rightarrow>
             (case cell_set (machine st) (pointer st) (PyInt ((v + 1) AND 0xFF)) of
                Inl e \<Rightarrow> Inl (e, st)
              | Inr m \<Rightarrow> Inr (st\<lparr>machine := m\<rparr>)))
      else if char = CHR ''-'' then
        (case cell_get (machine st) (pointer st) of
           Inl e \<Rightarrow> Inl (e, st)
         | Inr v \<Rightarrow>
             (case cell_set (machine st) (pointer st) (PyInt ((v - 1) AND 0xFF)) of
                Inl e \<Rightarrow> Inl (e, st)
              | Inr m \<Rightarrow> Inr (st\<lparr>machine := m\<rparr>)))
      else if char = CHR ''['' then
        (case cell_get (machine st) (pointer st) of
           Inl e \<Rightarrow> Inl (e, st)
         | Inr v \<Rightarrow>
             if v = 0 then
               (case loop_tags (cursor st) of
                  None \<Rightarrow> Inl (KeyError, st)
                | Some target \<Rightarrow> Inr (st\<lparr>cursor := target\<rparr>))
             else Inr st)
      else if char = CHR '']'' then
        (case cell_get (machine st) (pointer st) of
           Inl e \<Rightarrow> Inl (e, st)
         | Inr v \<Rightarrow>
             if v \<noteq> 0 then
               (case loop_tags (cursor st) of
                  None \<Rightarrow> Inl (KeyError, st)
                | Some target \<Rightarrow> Inr (st\<lparr>cursor := target\<rparr>))
             else Inr st)
      else if char = CHR ''.'' then
        (case cell_get (machine st) (pointer st) of
           Inl e \<Rightarrow> Inl (e, st)
         | Inr v \<Rightarrow> Inr (st\<lparr>stdout := stdout st @ [v]\<rparr>))
      else if char = CHR '','' then
        (case io_getchar st of
           Inl err \<Rightarrow> Inl err
         | Inr (v, st1) \<Rightarrow>
             (case cell_set (machine st1) (pointer st1) v of
                Inl e \<Rightarrow> Inl (e, st1)
              | Inr m \<Rightarrow> Inr (st1\<lparr>machine := m\<rparr>)))
      else Inr st)"

text \<open>One turn of the loop body: the \<^verbatim>\<open>match\<close> statement, then \<^verbatim>\<open>cursor += 1\<close>.\<close>

definition step ::
  "string \<Rightarrow> (nat \<rightharpoonup> nat) \<Rightarrow> int \<Rightarrow> interp_state \<Rightarrow> (error \<times> interp_state) + interp_state" where
  "step source loop_tags cells st =
     (case exec_token source loop_tags cells st of
        Inl err \<Rightarrow> Inl err
      | Inr st1 \<Rightarrow> Inr (st1\<lparr>cursor := cursor st1 + 1\<rparr>))"

text \<open>
  The loop \<^verbatim>\<open>while cursor < len(source)\<close> may run forever (\<^verbatim>\<open>+[]\<close>); the model is a partial
  function in the option monad, and \<open>None\<close> is a run that never returns.
\<close>

partial_function (option) interpret_loop ::
  "string \<Rightarrow> (nat \<rightharpoonup> nat) \<Rightarrow> int \<Rightarrow> interp_state
     \<Rightarrow> ((error \<times> interp_state) + interp_state) option" where
  "interpret_loop source loop_tags cells st =
     (if cursor st < length source then
        (case step source loop_tags cells st of
           Inl err \<Rightarrow> Some (Inl err)
         | Inr st1 \<Rightarrow> interpret_loop source loop_tags cells st1)
      else Some (Inr st))"

declare interpret_loop.simps [code]

definition MINIMUM_TARGET_SIZE :: int where
  "MINIMUM_TARGET_SIZE = 30000"

text \<open>
  \<^verbatim>\<open>interpret(source, cells)\<close>: normalise, build the bracket map, allocate \<^verbatim>\<open>bytearray(cells)\<close>
  (a negative count is a \<^verbatim>\<open>ValueError\<close>), start with pointer and cursor 0, run the loop.
\<close>

definition initial_state :: "int \<Rightarrow> channels \<Rightarrow> interp_state" where
  "initial_state cells io =
     \<lparr>iobuf = iobuf io, stdin = stdin io, stdout = stdout io,
      machine = replicate (nat cells) 0, pointer = 0, cursor = 0\<rparr>"

definition interpret_bf ::
  "string \<Rightarrow> int \<Rightarrow> channels \<Rightarrow> ((error \<times> channels) + interp_state) option" where
  "interpret_bf source0 cells io =
     (let source = clean_source source0 in
      case construct_tags source of
        Inl e \<Rightarrow> Some (Inl (e, io))
      | Inr loop_tags \<Rightarrow>
          if cells < 0 then Some (Inl (ValueError, io))
          else (case interpret_loop source loop_tags cells (initial_state cells io) of
                  None \<Rightarrow> None
                | Some (Inl (e, st)) \<Rightarrow> Some (Inl (e, channels.truncate st))
                | Some (Inr st) \<Rightarrow> Some (Inr st)))"

text \<open>
  The first \<open>n\<close> turns of the loop, for statements about every state an execution goes
  through, terminating or not.
\<close>

fun steps ::
  "string \<Rightarrow> (nat \<rightharpoonup> nat) \<Rightarrow> int \<Rightarrow> nat \<Rightarrow> interp_state \<Rightarrow> (error \<times> interp_state) + interp_state" where
  "steps source loop_tags cells 0 st = Inr st"
| "steps source loop_tags cells (Suc n) st =
     (if cursor st < length source then
        (case step source loop_tags cells st of
           Inl err \<Rightarrow> Inl err
         | Inr st1 \<Rightarrow> steps source loop_tags cells n st1)
      else Inr st)"


lemma and_255_range: "0 \<le> (x::int) AND 0xFF \<and> x AND 0xFF < 256"
proof -
  have "x AND 0xFF \<le> 0xFF" by (rule AND_upper2) simp
  moreover have "0 \<le> x AND 0xFF" by simp
  ultimately show ?thesis by simp
qed


definition in_range :: "int \<Rightarrow> interp_state \<Rightarrow> bool" where
  "in_range cells st \<longleftrightarrow>
     0 \<le> pointer st \<and> pointer st < cells \<and> int (length (machine st)) = cells"

lemma in_range_index:
  "in_range cells st \<Longrightarrow> py_index (machine st) (pointer st) = Some (nat (pointer st))"
  by (simp add: in_range_def py_index_def Let_def)

lemma in_range_get:
  "in_range cells st \<Longrightarrow> cell_get (machine st) (pointer st) = Inr (machine st ! nat (pointer st))"
  by (simp add: cell_get_def in_range_index)

lemma in_range_set_byte:
  "in_range cells st \<Longrightarrow>
     cell_set (machine st) (pointer st) (PyInt (x AND 0xFF))
       = Inr ((machine st)[nat (pointer st) := x AND 0xFF])"
proof -
  assume r: "in_range cells st"
  from and_255_range [of x] have "\<not> (x AND 0xFF < 0 \<or> 256 \<le> x AND 0xFF)"
    by linarith
  then show ?thesis
    unfolding cell_set_def by (simp only: pyobj.case if_False in_range_index [OF r] option.case)
qed

lemma cell_set_length:
  "cell_set tape i v = Inr tape' \<Longrightarrow> length tape' = length tape"
  by (auto simp: cell_set_def split: pyobj.splits if_splits option.splits)

lemma cell_set_no_IndexError:
  "in_range cells st \<Longrightarrow> cell_set (machine st) (pointer st) v \<noteq> Inl IndexError"
  by (auto simp: cell_set_def in_range_index split: pyobj.splits)

lemma io_getchar_keeps:
  "io_getchar st = Inr (v, st1) \<Longrightarrow>
     machine st1 = machine st \<and> pointer st1 = pointer st \<and> cursor st1 = cursor st"
  by (auto simp: io_getchar_def split: list.splits if_splits)

lemma io_getchar_fails:
  "io_getchar st = Inl (e, st1) \<Longrightarrow>
     (e = EndOfInput \<or> e = MultibyteInput)
     \<and> machine st1 = machine st \<and> pointer st1 = pointer st \<and> cursor st1 = cursor st"
  by (auto simp: io_getchar_def split: list.splits if_splits)

lemma exec_token_in_range:
  assumes "in_range cells st" and "exec_token source loop_tags cells st = Inr st1"
  shows "in_range cells st1"
proof -
  note g = in_range_get [OF assms(1)]
  consider (r) "source ! cursor st = CHR ''>''" | (l) "source ! cursor st = CHR ''<''"
    | (p) "source ! cursor st = CHR ''+''" | (m) "source ! cursor st = CHR ''-''"
    | (o) "source ! cursor st = CHR ''[''" | (c) "source ! cursor st = CHR '']''"
    | (d) "source ! cursor st = CHR ''.''" | (i) "source ! cursor st = CHR '',''"
    | (other) "source ! cursor st \<notin> set ''><+-[].,''"
    by auto
  then show ?thesis
  proof cases
    case r
    with assms show ?thesis
      by (auto simp: exec_token_def in_range_def Let_def split: if_splits)
  next
    case l
    with assms show ?thesis
      by (auto simp: exec_token_def in_range_def Let_def split: if_splits)
  next
    case p
    with assms(2) g in_range_set_byte [OF assms(1)] have "st1 = st\<lparr>machine := (machine st)[nat (pointer st) := (machine st ! nat (pointer st) + 1) AND 0xFF]\<rparr>"
      by (auto simp: exec_token_def Let_def)
    with assms(1) show ?thesis by (simp add: in_range_def)
  next
    case m
    with assms(2) g in_range_set_byte [OF assms(1)] have "st1 = st\<lparr>machine := (machine st)[nat (pointer st) := (machine st ! nat (pointer st) - 1) AND 0xFF]\<rparr>"
      by (auto simp: exec_token_def Let_def)
    with assms(1) show ?thesis by (simp add: in_range_def)
  next
    case o
    with assms g show ?thesis
      by (auto simp: exec_token_def in_range_def Let_def split: if_splits option.splits)
  next
    case c
    with assms g show ?thesis
      by (auto simp: exec_token_def in_range_def Let_def split: if_splits option.splits)
  next
    case d
    with assms g show ?thesis
      by (auto simp: exec_token_def in_range_def Let_def)
  next
    case i
    with assms(2) obtain v st2 m where a: "io_getchar st = Inr (v, st2)"
      and b: "cell_set (machine st2) (pointer st2) v = Inr m" and c: "st1 = st2\<lparr>machine := m\<rparr>"
      by (auto simp: exec_token_def Let_def split: sum.splits prod.splits)
    from io_getchar_keeps [OF a] cell_set_length [OF b] c assms(1) show ?thesis
      by (simp add: in_range_def)
  next
    case other
    with assms show ?thesis
      by (auto simp: exec_token_def Let_def)
  qed
qed

lemma step_in_range:
  "in_range cells st \<Longrightarrow> step source loop_tags cells st = Inr st1 \<Longrightarrow> in_range cells st1"
proof -
  assume a: "in_range cells st" and b: "step source loop_tags cells st = Inr st1"
  from b obtain st2 where c: "exec_token source loop_tags cells st = Inr st2"
    and d: "st1 = st2\<lparr>cursor := cursor st2 + 1\<rparr>"
    by (auto simp: step_def split: sum.splits)
  from exec_token_in_range [OF a c] d show ?thesis by (simp add: in_range_def)
qed

lemma steps_in_range:
  "in_range cells st \<Longrightarrow> steps source loop_tags cells n st = Inr st1 \<Longrightarrow> in_range cells st1"
proof (induction n arbitrary: st)
  case 0
  then show ?case by simp
next
  case (Suc n)
  show ?case
  proof (cases "cursor st < length source")
    case True
    with Suc.prems(2) obtain st2 where s: "step source loop_tags cells st = Inr st2"
      and r: "steps source loop_tags cells n st2 = Inr st1"
      by (auto split: sum.splits)
    from Suc.IH [OF step_in_range [OF Suc.prems(1) s] r] show ?thesis .
  next
    case False
    with Suc.prems show ?thesis by simp
  qed
qed

lemma exec_token_failure:
  assumes "in_range cells st" and "exec_token source loop_tags cells st = Inl (e, st1)"
  shows "e \<noteq> IndexError \<and> machine st1 = machine st"
proof -
  note g = in_range_get [OF assms(1)]
  consider (r) "source ! cursor st = CHR ''>''" | (l) "source ! cursor st = CHR ''<''"
    | (p) "source ! cursor st = CHR ''+''" | (m) "source ! cursor st = CHR ''-''"
    | (o) "source ! cursor st = CHR ''[''" | (c) "source ! cursor st = CHR '']''"
    | (d) "source ! cursor st = CHR ''.''" | (i) "source ! cursor st = CHR '',''"
    | (other) "source ! cursor st \<notin> set ''><+-[].,''"
    by auto
  then show ?thesis
  proof cases
    case r
    with assms show ?thesis
      by (auto simp: exec_token_def Let_def split: if_splits)
  next
    case l
    with assms show ?thesis
      by (auto simp: exec_token_def Let_def split: if_splits)
  next
    case p
    with assms(2) g in_range_set_byte [OF assms(1)] show ?thesis
      by (auto simp: exec_token_def Let_def)
  next
    case m
    with assms(2) g in_range_set_byte [OF assms(1)] show ?thesis
      by (auto simp: exec_token_def Let_def)
  next
    case o
    with assms g show ?thesis
      by (auto simp: exec_token_def Let_def split: if_splits option.splits)
  next
    case c
    with assms g show ?thesis
      by (auto simp: exec_token_def Let_def split: if_splits option.splits)
  next
    case d
    with assms g show ?thesis
      by (auto simp: exec_token_def Let_def)
  next
    case i
    show ?thesis
    proof (cases "io_getchar st")
      case (Inl err)
      with i assms(2) have "err = (e, st1)" by (simp add: exec_token_def Let_def)
      with Inl io_getchar_fails [of st e st1] show ?thesis by auto
    next
      case (Inr r)
      obtain v st2 where r: "r = (v, st2)" by (cases r)
      note k = io_getchar_keeps [OF Inr [unfolded r]]
      from k assms(1) have ir: "in_range cells st2" by (simp add: in_range_def)
      from i assms(2) Inr r have f: "cell_set (machine st2) (pointer st2) v = Inl e" and s: "st1 = st2"
        by (auto simp: exec_token_def Let_def split: sum.splits)
      from f cell_set_no_IndexError [OF ir, of v] have "e \<noteq> IndexError" by auto
      with s k show ?thesis by simp
    qed
  next
    case other
    with assms show ?thesis
      by (auto simp: exec_token_def Let_def)
  qed
qed

lemma step_failure:
  "in_range cells st \<Longrightarrow> step source loop_tags cells st = Inl (e, st1) \<Longrightarrow>
     e \<noteq> IndexError \<and> machine st1 = machine st"
  using exec_token_failure [of cells st source loop_tags e st1]
  by (auto simp: step_def split: sum.splits)

lemma initial_state_in_range: "0 < cells \<Longrightarrow> in_range cells (initial_state cells io)"
  by (simp add: in_range_def initial_state_def)

lemma steps_loop_failure:
  "steps source loop_tags cells n st = Inl err \<Longrightarrow>
     interpret_loop source loop_tags cells st = Some (Inl err)"
proof (induction n arbitrary: st)
  case 0
  then show ?case by simp
next
  case (Suc n)
  then have lt: "cursor st < length source" by (auto split: if_splits)
  show ?case
  proof (cases "step source loop_tags cells st")
    case (Inl e)
    with Suc.prems lt show ?thesis
      by (subst interpret_loop.simps) simp
  next
    case (Inr st2)
    with Suc.prems lt have "steps source loop_tags cells n st2 = Inl err" by simp
    from Suc.IH [OF this] Inr lt show ?thesis
      by (subst interpret_loop.simps) simp
  qed
qed

lemma steps_loop_normal:
  "steps source loop_tags cells n st = Inr st1 \<Longrightarrow> \<not> cursor st1 < length source \<Longrightarrow>
     interpret_loop source loop_tags cells st = Some (Inr st1)"
proof (induction n arbitrary: st)
  case 0
  then show ?case by (subst interpret_loop.simps) simp
next
  case (Suc n)
  show ?case
  proof (cases "cursor st < length source")
    case False
    with Suc.prems show ?thesis by (subst interpret_loop.simps) simp
  next
    case True
    with Suc.prems(1) obtain st2 where s: "step source loop_tags cells st = Inr st2"
      and r: "steps source loop_tags cells n st2 = Inr st1"
      by (auto split: sum.splits)
    from Suc.IH [OF r Suc.prems(2)] s True show ?thesis
      by (subst interpret_loop.simps) simp
  qed
qed

lemma loop_steps:
  assumes "interpret_loop source loop_tags cells st = Some res"
  shows "\<exists>n. steps source loop_tags cells n st = res
          \<and> (\<forall>st1. res = Inr st1 \<longrightarrow> \<not> cursor st1 < length source)"
proof (rule interpret_loop.raw_induct [where P = "\<lambda>source loop_tags cells st res.
     \<exists>n. steps source loop_tags cells n st = res
          \<and> (\<forall>st1. res = Inr st1 \<longrightarrow> \<not> cursor st1 < length source)", OF _ assms], goal_cases)
  case (1 loop source loop_tags cells st res)
  show ?case
  proof (cases "cursor st < length source")
    case False
    with 1(2) have "res = Inr st" by simp
    with False have "steps source loop_tags cells 0 st = res
          \<and> (\<forall>st1. res = Inr st1 \<longrightarrow> \<not> cursor st1 < length source)" by simp
    then show ?thesis by blast
  next
    case True
    show ?thesis
    proof (cases "step source loop_tags cells st")
      case (Inl e)
      with True 1(2) have "res = Inl e" by simp
      with True Inl have "steps source loop_tags cells (Suc 0) st = res
          \<and> (\<forall>st1. res = Inr st1 \<longrightarrow> \<not> cursor st1 < length source)" by simp
      then show ?thesis by blast
    next
      case (Inr st2)
      with True 1(2) have "loop source loop_tags cells st2 = Some res" by simp
      from 1(1) [OF this] obtain n where "steps source loop_tags cells n st2 = res
          \<and> (\<forall>st1. res = Inr st1 \<longrightarrow> \<not> cursor st1 < length source)" by blast
      with True Inr have "steps source loop_tags cells (Suc n) st = res
          \<and> (\<forall>st1. res = Inr st1 \<longrightarrow> \<not> cursor st1 < length source)" by simp
      then show ?thesis by blast
    qed
  qed
qed


lemma step_move_right:
  "source ! cursor st = CHR ''>'' \<Longrightarrow>
     step source loop_tags cells st =
       (if pointer st + 1 = cells
        then Inl (PointerOutOfRange cells, st\<lparr>pointer := pointer st + 1\<rparr>)
        else Inr (st\<lparr>pointer := pointer st + 1, cursor := cursor st + 1\<rparr>))"
  by (simp add: step_def exec_token_def Let_def)

lemma step_move_left:
  "source ! cursor st = CHR ''<'' \<Longrightarrow>
     step source loop_tags cells st =
       (if pointer st - 1 < 0
        then Inl (PointerOutOfRange (- 1), st\<lparr>pointer := pointer st - 1\<rparr>)
        else Inr (st\<lparr>pointer := pointer st - 1, cursor := cursor st + 1\<rparr>))"
  by (simp add: step_def exec_token_def Let_def)

lemma loop_unfold:
  "cursor st < length source \<Longrightarrow>
     interpret_loop source loop_tags cells st =
       (case step source loop_tags cells st of
          Inl err \<Rightarrow> Some (Inl err)
        | Inr st1 \<Rightarrow> interpret_loop source loop_tags cells st1)"
  by (subst interpret_loop.simps) simp

lemma loop_finished:
  "\<not> cursor st < length source \<Longrightarrow> interpret_loop source loop_tags cells st = Some (Inr st)"
  by (subst interpret_loop.simps) simp

text \<open>
  Claim C5.  In a state whose tape has \<open>cells\<close> cells and whose cursor is on a move-right
  token, the step increments the pointer and fails with \<open>PointerOutOfRange\<close> carrying the
  tape length exactly when the incremented pointer equals the tape length; on a move-left
  token it decrements the pointer and fails with \<open>PointerOutOfRange (-1)\<close> exactly when the
  decremented pointer is negative.  In the state carried by the failure the tape, the
  cursor and the channels are those before the step, and the execution loop returns that
  failure at once.
\<close>

theorem interpreter_move_bounds:
  assumes "cursor st < length source" and "int (length (machine st)) = cells"
  shows "(source ! cursor st = CHR ''>'' \<longrightarrow>
            step source loop_tags cells st =
              (if pointer st + 1 = int (length (machine st))
               then Inl (PointerOutOfRange (int (length (machine st))),
                         st\<lparr>pointer := pointer st + 1\<rparr>)
               else Inr (st\<lparr>pointer := pointer st + 1, cursor := cursor st + 1\<rparr>)))
       \<and> (source ! cursor st = CHR ''<'' \<longrightarrow>
            step source loop_tags cells st =
              (if pointer st - 1 < 0
               then Inl (PointerOutOfRange (- 1), st\<lparr>pointer := pointer st - 1\<rparr>)
               else Inr (st\<lparr>pointer := pointer st - 1, cursor := cursor st + 1\<rparr>)))
       \<and> (\<forall>err. step source loop_tags cells st = Inl err \<longrightarrow>
            interpret_loop source loop_tags cells st = Some (Inl err))"
proof -
  have r: "source ! cursor st = CHR ''>'' \<longrightarrow>
            step source loop_tags cells st =
              (if pointer st + 1 = int (length (machine st))
               then Inl (PointerOutOfRange (int (length (machine st))),
                         st\<lparr>pointer := pointer st + 1\<rparr>)
               else Inr (st\<lparr>pointer := pointer st + 1, cursor := cursor st + 1\<rparr>))"
    using step_move_right [of source st loop_tags cells] assms(2) by simp
  have l: "source ! cursor st = CHR ''<'' \<longrightarrow>
            step source loop_tags cells st =
              (if pointer st - 1 < 0
               then Inl (PointerOutOfRange (- 1), st\<lparr>pointer := pointer st - 1\<rparr>)
               else Inr (st\<lparr>pointer := pointer st - 1, cursor := cursor st + 1\<rparr>))"
    using step_move_left [of source st loop_tags cells] by simp
  have h: "\<forall>err. step source loop_tags cells st = Inl err \<longrightarrow>
            interpret_loop source loop_tags cells st = Some (Inl err)"
    using loop_unfold [OF assms(1), of loop_tags cells] by simp
  from r l h show ?thesis by blast
qed

theorem interpreter_move_bounds_witness:
  "interpret_loop ''>'' Map.empty 1
      \<lparr>iobuf = [], stdin = [], stdout = [], machine = [0], pointer = 0, cursor = 0\<rparr>
     = Some (Inl (PointerOutOfRange 1,
         \<lparr>iobuf = [], stdin = [], stdout = [], machine = [0], pointer = 1, cursor = 0\<rparr>))"
proof -
  let ?st = "\<lparr>iobuf = [], stdin = [], stdout = [], machine = [0], pointer = 0, cursor = 0\<rparr>"
  have a: "cursor ?st < length ''>''" by simp
  have b: "int (length (machine ?st)) = 1" by simp
  from interpreter_move_bounds [OF a b, of Map.empty]
  have s: "step ''>'' Map.empty 1 ?st
             = Inl (PointerOutOfRange 1,
                 \<lparr>iobuf = [], stdin = [], stdout = [], machine = [0], pointer = 1, cursor = 0\<rparr>)"
    and h: "\<forall>err. step ''>'' Map.empty 1 ?st = Inl err \<longrightarrow>
            interpret_loop ''>'' Map.empty 1 ?st = Some (Inl err)"
    by simp_all
  from h s show ?thesis by simp
qed

lemma step_loop_start:
  assumes "source ! cursor st = CHR ''[''" and "cell_get (machine st) (pointer st) = Inr v"
  shows "step source loop_tags cells st =
           (if v = 0 then
              (case loop_tags (cursor st) of
                 None \<Rightarrow> Inl (KeyError, st)
               | Some target \<Rightarrow> Inr (st\<lparr>cursor := target + 1\<rparr>))
            else Inr (st\<lparr>cursor := cursor st + 1\<rparr>))"
  using assms by (simp add: step_def exec_token_def Let_def split: option.splits)

lemma step_loop_end:
  assumes "source ! cursor st = CHR '']''" and "cell_get (machine st) (pointer st) = Inr v"
  shows "step source loop_tags cells st =
           (if v \<noteq> 0 then
              (case loop_tags (cursor st) of
                 None \<Rightarrow> Inl (KeyError, st)
               | Some target \<Rightarrow> Inr (st\<lparr>cursor := target + 1\<rparr>))
            else Inr (st\<lparr>cursor := cursor st + 1\<rparr>))"
  using assms by (simp add: step_def exec_token_def Let_def split: option.splits)

lemma exec_token_other_cursor:
  assumes "source ! cursor st \<noteq> CHR ''[''" and "source ! cursor st \<noteq> CHR '']''"
    and "exec_token source loop_tags cells st = Inr st1"
  shows "cursor st1 = cursor st"
proof -
  consider (r) "source ! cursor st = CHR ''>''" | (l) "source ! cursor st = CHR ''<''"
    | (p) "source ! cursor st = CHR ''+''" | (m) "source ! cursor st = CHR ''-''"
    | (d) "source ! cursor st = CHR ''.''" | (i) "source ! cursor st = CHR '',''"
    | (other) "source ! cursor st \<notin> set ''><+-[].,''"
    using assms(1,2) by auto
  then show ?thesis
  proof cases
    case r
    with assms(3) show ?thesis by (auto simp: exec_token_def Let_def split: if_splits)
  next
    case l
    with assms(3) show ?thesis by (auto simp: exec_token_def Let_def split: if_splits)
  next
    case p
    with assms(3) show ?thesis by (auto simp: exec_token_def Let_def split: sum.splits)
  next
    case m
    with assms(3) show ?thesis by (auto simp: exec_token_def Let_def split: sum.splits)
  next
    case d
    with assms(3) show ?thesis by (auto simp: exec_token_def Let_def split: sum.splits)
  next
    case i
    with assms(3) obtain v st2 m where a: "io_getchar st = Inr (v, st2)"
      and c: "st1 = st2\<lparr>machine := m\<rparr>"
      by (auto simp: exec_token_def Let_def split: sum.splits prod.splits)
    from io_getchar_keeps [OF a] c show ?thesis by simp
  next
    case other
    with assms show ?thesis by (auto simp: exec_token_def Let_def)
  qed
qed

lemma step_other_cursor:
  assumes "source ! cursor st \<noteq> CHR ''[''" and "source ! cursor st \<noteq> CHR '']''"
    and "step source loop_tags cells st = Inr st1"
  shows "cursor st1 = cursor st + 1"
proof -
  from assms(3) obtain st2 where c: "exec_token source loop_tags cells st = Inr st2"
    and d: "st1 = st2\<lparr>cursor := cursor st2 + 1\<rparr>"
    by (auto simp: step_def split: sum.splits)
  from exec_token_other_cursor [OF assms(1,2) c] d show ?thesis by simp
qed

lemma loop_normal_end:
  assumes "interpret_loop source loop_tags cells st = Some (Inr st1)"
  shows "length source \<le> cursor st1"
  using loop_steps [OF assms] by auto


lemma step_cursor_le:
  assumes tags: "construct_tags source = Inr loop_tags" and lt: "cursor st < length source"
    and s: "step source loop_tags cells st = Inr st1"
  shows "cursor st1 \<le> length source"
proof -
  note inv = construct_tags_inv [OF tags]
  have target: "loop_tags (cursor st) = Some target \<Longrightarrow> target < length source" for target
    using tags_inv_final_cases [OF inv, of "cursor st" target] by blast
  consider (o) "source ! cursor st = CHR ''[''" | (c) "source ! cursor st = CHR '']''"
    | (other) "source ! cursor st \<noteq> CHR ''[''" "source ! cursor st \<noteq> CHR '']''"
    by blast
  then show ?thesis
  proof cases
    case o
    from s o obtain v where v: "cell_get (machine st) (pointer st) = Inr v"
      by (auto simp: step_def exec_token_def Let_def split: sum.splits)
    from s step_loop_start [OF o v, of loop_tags cells] target lt show ?thesis
      by (auto split: if_splits option.splits)
  next
    case c
    from s c obtain v where v: "cell_get (machine st) (pointer st) = Inr v"
      by (auto simp: step_def exec_token_def Let_def split: sum.splits)
    from s step_loop_end [OF c v, of loop_tags cells] target lt show ?thesis
      by (auto split: if_splits option.splits)
  next
    case other
    from step_other_cursor [OF other s] lt show ?thesis by simp
  qed
qed

lemma steps_cursor_le:
  "construct_tags source = Inr loop_tags \<Longrightarrow> cursor st \<le> length source \<Longrightarrow>
     steps source loop_tags cells n st = Inr st1 \<Longrightarrow> cursor st1 \<le> length source"
proof (induction n arbitrary: st)
  case 0
  then show ?case by simp
next
  case (Suc n)
  show ?case
  proof (cases "cursor st < length source")
    case True
    with Suc.prems(3) obtain st2 where s: "step source loop_tags cells st = Inr st2"
      and r: "steps source loop_tags cells n st2 = Inr st1"
      by (auto split: sum.splits)
    from Suc.IH [OF Suc.prems(1) step_cursor_le [OF Suc.prems(1) True s] r] show ?thesis .
  next
    case False
    with Suc.prems show ?thesis by simp
  qed
qed

lemma loop_normal_end_exact:
  assumes "construct_tags source = Inr loop_tags" and "cursor st \<le> length source"
    and "interpret_loop source loop_tags cells st = Some (Inr st1)"
  shows "cursor st1 = length source"
proof -
  from loop_steps [OF assms(3)] obtain n where n: "steps source loop_tags cells n st = Inr st1"
    and e: "\<not> cursor st1 < length source" by auto
  from steps_cursor_le [OF assms(1,2) n] e show ?thesis by simp
qed

text \<open>
  Claim C8, as the code has it.  The loop body ends with an unconditional \<^verbatim>\<open>cursor += 1\<close>, so
  a taken jump leaves the cursor one past the matched bracket: on a loop-start whose cell
  is 0 the step ends at the matched loop-end index plus one, on a loop-end whose cell is
  nonzero it ends at the matched loop-start index plus one, and every other successful step
  ends at the old cursor plus one.  The loop runs a step while the cursor is below the
  program length and returns normally as soon as it is not; with the bracket map of
  \<^verbatim>\<open>construct_tags\<close> a normal end has the cursor exactly at the program length.
\<close>

theorem interpreter_cursor_jumps:
  "(source ! cursor st = CHR ''['' \<and> cell_get (machine st) (pointer st) = Inr 0
      \<and> loop_tags (cursor st) = Some target
      \<longrightarrow> step source loop_tags cells st = Inr (st\<lparr>cursor := target + 1\<rparr>))
   \<and> (source ! cursor st = CHR '']'' \<and> cell_get (machine st) (pointer st) = Inr v \<and> v \<noteq> 0
      \<and> loop_tags (cursor st) = Some target
      \<longrightarrow> step source loop_tags cells st = Inr (st\<lparr>cursor := target + 1\<rparr>))
   \<and> (source ! cursor st = CHR ''['' \<and> cell_get (machine st) (pointer st) = Inr v \<and> v \<noteq> 0
      \<longrightarrow> step source loop_tags cells st = Inr (st\<lparr>cursor := cursor st + 1\<rparr>))
   \<and> (source ! cursor st = CHR '']'' \<and> cell_get (machine st) (pointer st) = Inr 0
      \<longrightarrow> step source loop_tags cells st = Inr (st\<lparr>cursor := cursor st + 1\<rparr>))
   \<and> (source ! cursor st \<noteq> CHR ''['' \<and> source ! cursor st \<noteq> CHR '']''
      \<and> step source loop_tags cells st = Inr st1
      \<longrightarrow> cursor st1 = cursor st + 1)
   \<and> (cursor st < length source
      \<longrightarrow> interpret_loop source loop_tags cells st =
           (case step source loop_tags cells st of
              Inl err \<Rightarrow> Some (Inl err)
            | Inr st2 \<Rightarrow> interpret_loop source loop_tags cells st2))
   \<and> (length source \<le> cursor st
      \<longrightarrow> interpret_loop source loop_tags cells st = Some (Inr st))
   \<and> (interpret_loop source loop_tags cells st = Some (Inr st1)
      \<longrightarrow> length source \<le> cursor st1)
   \<and> (construct_tags source = Inr loop_tags \<and> cursor st \<le> length source
      \<and> interpret_loop source loop_tags cells st = Some (Inr st1)
      \<longrightarrow> cursor st1 = length source)"
proof -
  have a: "source ! cursor st = CHR ''['' \<and> cell_get (machine st) (pointer st) = Inr 0
      \<and> loop_tags (cursor st) = Some target
      \<longrightarrow> step source loop_tags cells st = Inr (st\<lparr>cursor := target + 1\<rparr>)"
    using step_loop_start [of source st 0 loop_tags cells] by simp
  have b: "source ! cursor st = CHR '']'' \<and> cell_get (machine st) (pointer st) = Inr v \<and> v \<noteq> 0
      \<and> loop_tags (cursor st) = Some target
      \<longrightarrow> step source loop_tags cells st = Inr (st\<lparr>cursor := target + 1\<rparr>)"
    using step_loop_end [of source st v loop_tags cells] by simp
  have c: "source ! cursor st = CHR ''['' \<and> cell_get (machine st) (pointer st) = Inr v \<and> v \<noteq> 0
      \<longrightarrow> step source loop_tags cells st = Inr (st\<lparr>cursor := cursor st + 1\<rparr>)"
    using step_loop_start [of source st v loop_tags cells] by simp
  have d: "source ! cursor st = CHR '']'' \<and> cell_get (machine st) (pointer st) = Inr 0
      \<longrightarrow> step source loop_tags cells st = Inr (st\<lparr>cursor := cursor st + 1\<rparr>)"
    using step_loop_end [of source st 0 loop_tags cells] by simp
  have e: "source ! cursor st \<noteq> CHR ''['' \<and> source ! cursor st \<noteq> CHR '']''
      \<and> step source loop_tags cells st = Inr st1
      \<longrightarrow> cursor st1 = cursor st + 1"
    using step_other_cursor [of source st loop_tags cells st1] by blast
  have f: "cursor st < length source
      \<longrightarrow> interpret_loop source loop_tags cells st =
           (case step source loop_tags cells st of
              Inl err \<Rightarrow> Some (Inl err)
            | Inr st2 \<Rightarrow> interpret_loop source loop_tags cells st2)"
    using loop_unfold [of st source loop_tags cells] by blast
  have g: "length source \<le> cursor st
      \<longrightarrow> interpret_loop source loop_tags cells st = Some (Inr st)"
    using loop_finished [of st source loop_tags cells] by simp
  have h: "interpret_loop source loop_tags cells st = Some (Inr st1)
      \<longrightarrow> length source \<le> cursor st1"
    using loop_normal_end [of source loop_tags cells st st1] by blast
  have i: "construct_tags source = Inr loop_tags \<and> cursor st \<le> length source
      \<and> interpret_loop source loop_tags cells st = Some (Inr st1)
      \<longrightarrow> cursor st1 = length source"
    using loop_normal_end_exact [of source loop_tags st cells st1] by blast
  from a b c d e f g h i show ?thesis by blast
qed

theorem interpreter_cursor_jumps_witness:
  "''[]'' ! cursor \<lparr>iobuf = [], stdin = [], stdout = [], machine = [0], pointer = 0, cursor = 0\<rparr>
      = CHR ''[''
   \<and> cell_get [0] 0 = Inr 0
   \<and> [0 \<mapsto> 1, 1 \<mapsto> 0] (0::nat) = Some (1::nat)
   \<and> step ''[]'' [0 \<mapsto> 1, 1 \<mapsto> 0] 1
        \<lparr>iobuf = [], stdin = [], stdout = [], machine = [0], pointer = 0, cursor = 0\<rparr>
      = Inr \<lparr>iobuf = [], stdin = [], stdout = [], machine = [0], pointer = 0, cursor = 2\<rparr>"
proof -
  let ?st = "\<lparr>iobuf = [], stdin = [], stdout = [], machine = [0], pointer = 0, cursor = 0\<rparr>"
  have a: "''[]'' ! cursor ?st = CHR ''[''" by simp
  have b: "cell_get (machine ?st) (pointer ?st) = Inr 0"
    by (simp add: cell_get_def py_index_def)
  have c: "[0 \<mapsto> 1, 1 \<mapsto> 0] (cursor ?st) = Some (1::nat)" by simp
  from interpreter_cursor_jumps [of "''[]''" ?st "[0 \<mapsto> 1, 1 \<mapsto> 0]" 1 1] a b c
  have "step ''[]'' [0 \<mapsto> 1, 1 \<mapsto> 0] 1 ?st = Inr (?st\<lparr>cursor := 1 + 1\<rparr>)"
    by blast
  with a b c show ?thesis by simp
qed

text \<open>
  The claim as the specification words it (the step on a loop-start with a zero cell ends
  with the cursor on the matched loop-end index, with no advance after a jump) fails on
  the program \<^verbatim>\<open>[]\<close>: the matched loop-end index is 1 and the step ends at 2.
\<close>

theorem interpreter_cursor_jumps_counterexample:
  "map_sum id (\<lambda>tags. (tags 0, tags 1)) (construct_tags ''[]'') = Inr (Some 1, Some 0)
   \<and> [0 \<mapsto> 1, 1 \<mapsto> 0] (0::nat) = Some (1::nat)
   \<and> step ''[]'' [0 \<mapsto> 1, 1 \<mapsto> 0] 1
        \<lparr>iobuf = [], stdin = [], stdout = [], machine = [0], pointer = 0, cursor = 0\<rparr>
      \<noteq> Inr \<lparr>iobuf = [], stdin = [], stdout = [], machine = [0], pointer = 0, cursor = 1\<rparr>"
proof -
  have "map_sum id (\<lambda>tags. (tags 0, tags 1)) (construct_tags ''[]'') = Inr (Some 1, Some 0)"
    by code_simp
  then show ?thesis
    by (simp add: step_def exec_token_def cell_get_def py_index_def)
qed


text \<open>
  Claim C10.  With a positive cell count, every state that the execution loop reaches from
  the initial state without a failure has \<open>0 \<le> pointer < cells\<close> and a tape of \<open>cells\<close>
  cells, so that the tape access of the next step is at the in-bounds index \<open>pointer\<close>;
  a step from such a state never fails with an index error, a step that fails leaves the
  tape as it was (a move that leaves the range fails before any tape access), and a step
  that succeeds re-establishes the range.  The states counted are those of
  \<^const>\<open>interpret_loop\<close>: every result of the loop is the result of finitely many steps.
\<close>

theorem interpreter_pointer_in_range:
  assumes "0 < cells"
  shows "(\<forall>n st. steps source loop_tags cells n (initial_state cells io) = Inr st \<longrightarrow>
            0 \<le> pointer st \<and> pointer st < cells \<and> int (length (machine st)) = cells
            \<and> py_index (machine st) (pointer st) = Some (nat (pointer st))
            \<and> cell_get (machine st) (pointer st) = Inr (machine st ! nat (pointer st))
            \<and> (\<forall>v. cell_set (machine st) (pointer st) v \<noteq> Inl IndexError)
            \<and> (\<forall>e st1. step source loop_tags cells st = Inl (e, st1) \<longrightarrow>
                  e \<noteq> IndexError \<and> machine st1 = machine st)
            \<and> (\<forall>st1. step source loop_tags cells st = Inr st1 \<longrightarrow>
                  0 \<le> pointer st1 \<and> pointer st1 < cells
                  \<and> int (length (machine st1)) = cells))
       \<and> (\<forall>res. interpret_loop source loop_tags cells (initial_state cells io) = Some res \<longrightarrow>
            (\<exists>n. steps source loop_tags cells n (initial_state cells io) = res))"
proof -
  have a: "\<forall>n st. steps source loop_tags cells n (initial_state cells io) = Inr st \<longrightarrow>
            0 \<le> pointer st \<and> pointer st < cells \<and> int (length (machine st)) = cells
            \<and> py_index (machine st) (pointer st) = Some (nat (pointer st))
            \<and> cell_get (machine st) (pointer st) = Inr (machine st ! nat (pointer st))
            \<and> (\<forall>v. cell_set (machine st) (pointer st) v \<noteq> Inl IndexError)
            \<and> (\<forall>e st1. step source loop_tags cells st = Inl (e, st1) \<longrightarrow>
                  e \<noteq> IndexError \<and> machine st1 = machine st)
            \<and> (\<forall>st1. step source loop_tags cells st = Inr st1 \<longrightarrow>
                  0 \<le> pointer st1 \<and> pointer st1 < cells
                  \<and> int (length (machine st1)) = cells)"
  proof (intro allI impI)
    fix n st
    assume s: "steps source loop_tags cells n (initial_state cells io) = Inr st"
    from steps_in_range [OF initial_state_in_range [OF assms] s]
    have r: "in_range cells st" .
    have f: "\<forall>e st1. step source loop_tags cells st = Inl (e, st1) \<longrightarrow>
                  e \<noteq> IndexError \<and> machine st1 = machine st"
      using step_failure [OF r] by blast
    have g: "\<forall>st1. step source loop_tags cells st = Inr st1 \<longrightarrow>
                  0 \<le> pointer st1 \<and> pointer st1 < cells
                  \<and> int (length (machine st1)) = cells"
      using step_in_range [OF r] by (simp add: in_range_def)
    have h: "\<forall>v. cell_set (machine st) (pointer st) v \<noteq> Inl IndexError"
      using cell_set_no_IndexError [OF r] by blast
    from r have "0 \<le> pointer st \<and> pointer st < cells \<and> int (length (machine st)) = cells"
      by (simp add: in_range_def)
    with in_range_index [OF r] in_range_get [OF r] f g h
    show "0 \<le> pointer st \<and> pointer st < cells \<and> int (length (machine st)) = cells
            \<and> py_index (machine st) (pointer st) = Some (nat (pointer st))
            \<and> cell_get (machine st) (pointer st) = Inr (machine st ! nat (pointer st))
            \<and> (\<forall>v. cell_set (machine st) (pointer st) v \<noteq> Inl IndexError)
            \<and> (\<forall>e st1. step source loop_tags cells st = Inl (e, st1) \<longrightarrow>
                  e \<noteq> IndexError \<and> machine st1 = machine st)
            \<and> (\<forall>st1. step source loop_tags cells st = Inr st1 \<longrightarrow>
                  0 \<le> pointer st1 \<and> pointer st1 < cells
                  \<and> int (length (machine st1)) = cells)"
      by blast
  qed
  have b: "\<forall>res. interpret_loop source loop_tags cells (initial_state cells io) = Some res \<longrightarrow>
            (\<exists>n. steps source loop_tags cells n (initial_state cells io) = res)"
    using loop_steps [of source loop_tags cells "initial_state cells io"] by blast
  from a b show ?thesis by blast
qed

theorem interpreter_pointer_in_range_witness:
  "(0::int) < 2
   \<and> steps ''>+'' Map.empty 2 2 (initial_state 2 \<lparr>iobuf = [], stdin = [], stdout = []\<rparr>)
       = Inr \<lparr>iobuf = [], stdin = [], stdout = [], machine = [0, 1], pointer = 1, cursor = 2\<rparr>
   \<and> py_index [0, 1 :: int] 1 = Some 1
   \<and> cell_get [0, 1] 1 = Inr 1"
proof -
  let ?io = "\<lparr>iobuf = [], stdin = [], stdout = []\<rparr>"
  let ?st = "\<lparr>iobuf = [], stdin = [], stdout = [], machine = [0, 1], pointer = 1, cursor = 2\<rparr>"
  have c: "(0::int) < 2" by simp
  have s: "steps ''>+'' Map.empty 2 2 (initial_state 2 ?io) = Inr ?st"
    by (simp add: numeral_2_eq_2 initial_state_def step_def exec_token_def cell_get_def
          cell_set_def py_index_def)
  from interpreter_pointer_in_range [OF c, of "''>+''" Map.empty ?io] s
  have "py_index (machine ?st) (pointer ?st) = Some (nat (pointer ?st))
      \<and> cell_get (machine ?st) (pointer ?st) = Inr (machine ?st ! nat (pointer ?st))"
    by blast
  with c s show ?thesis by simp
qed

section \<open>Reading the program from standard input\<close>

text \<open>
  \<^verbatim>\<open>read_until_char\<close> reads chunks of 1024 characters until the text read so far contains the
  terminator, appends the chunk already read, hands \<^verbatim>\<open>result[first_occurrence:]\<close> to
  \<^verbatim>\<open>io_rebuffer\<close> and returns \<^verbatim>\<open>result[:first_occurrence]\<close>.  Standard input is the unread
  text \<^const>\<open>stdin\<close>; a read at its end returns the empty string, so the loop never returns
  when the terminator never comes: the model is a partial function and \<open>None\<close> stands for
  that.  \<^verbatim>\<open>main\<close> without a source file interprets the text read, with the default cell count.
\<close>

partial_function (option) read_until_loop ::
  "char \<Rightarrow> string \<Rightarrow> string \<Rightarrow> string \<Rightarrow> (string \<times> string) option" where
  "read_until_loop char result chunk unread =
     (if char \<notin> set result then
        read_until_loop char (result @ chunk) (take 1024 unread) (drop 1024 unread)
      else Some (result @ chunk, unread))"

declare read_until_loop.simps [code]

definition read_until_char :: "char \<Rightarrow> channels \<Rightarrow> (string \<times> channels) option" where
  "read_until_char char io =
     (case read_until_loop char [] (take 1024 (stdin io)) (drop 1024 (stdin io)) of
        None \<Rightarrow> None
      | Some (result, unread) \<Rightarrow>
          (let first_occurrence = length (takeWhile (\<lambda>c. c \<noteq> char) result)
           in Some (take first_occurrence result,
                    io_rebuffer (drop first_occurrence result) (io\<lparr>stdin := unread\<rparr>))))"

definition main_stdin :: "channels \<Rightarrow> ((error \<times> channels) + interp_state) option" where
  "main_stdin io =
     (case read_until_char CHR ''!'' io of
        None \<Rightarrow> None
      | Some (source, io1) \<Rightarrow> interpret_bf source MINIMUM_TARGET_SIZE io1)"


lemma read_until_char_example:
  "read_until_char CHR ''!'' \<lparr>iobuf = [], stdin = '',.!A'', stdout = []\<rparr>
     = Some ('',.'', \<lparr>iobuf = ''!A'', stdin = [], stdout = []\<rparr>)"
  by (simp add: read_until_char_def read_until_loop.simps io_rebuffer_def)

lemma construct_tags_example: "\<exists>tags. construct_tags '',.'' = Inr tags"
  by (intro construct_tags_total) (simp add: well_formed_def)

text \<open>
  Claim C6, at the input \<^verbatim>\<open>,.!A\<close> on standard input and no source file.  The claim lets the
  first input token receive the byte after the terminator, \<^verbatim>\<open>A\<close> (65), stored in the cell.
  The code puts the slice that starts at the terminator into the buffer, so the first
  input token receives the terminator itself, and what it receives is a one-character
  string, which the byte array refuses: the run ends with a type error, the buffer holding
  the rest.
\<close>

theorem stdin_replay_starts_at_terminator:
  "read_until_char CHR ''!'' \<lparr>iobuf = [], stdin = '',.!A'', stdout = []\<rparr>
     = Some ('',.'', \<lparr>iobuf = ''!A'', stdin = [], stdout = []\<rparr>)
   \<and> io_getchar \<lparr>iobuf = ''!A'', stdin = [], stdout = []\<rparr>
       = Inr (PyStr ''!'', \<lparr>iobuf = ''A'', stdin = [], stdout = []\<rparr>)
   \<and> main_stdin \<lparr>iobuf = [], stdin = '',.!A'', stdout = []\<rparr>
       = Some (Inl (TypeError, \<lparr>iobuf = ''A'', stdin = [], stdout = []\<rparr>))"
proof -
  obtain tags where t: "construct_tags '',.'' = Inr tags"
    using construct_tags_example by blast
  have c: "clean_source '',.'' = '',.''"
    by (simp add: clean_source_def VALID_TOKENS_def)
  have g: "io_getchar \<lparr>iobuf = ''!A'', stdin = [], stdout = []\<rparr>
       = Inr (PyStr ''!'', \<lparr>iobuf = ''A'', stdin = [], stdout = []\<rparr>)"
    by (simp add: io_getchar_def)
  have l: "interpret_loop '',.'' tags 30000
            \<lparr>iobuf = ''!A'', stdin = [], stdout = [],
               machine = replicate 30000 0, pointer = 0, cursor = 0\<rparr>
       = Some (Inl (TypeError,
            \<lparr>iobuf = ''A'', stdin = [], stdout = [],
               machine = replicate 30000 0, pointer = 0, cursor = 0\<rparr>))"
    apply (subst interpret_loop.simps)
    apply (simp add: step_def exec_token_def io_getchar_def cell_set_def)
    done
  have m: "main_stdin \<lparr>iobuf = [], stdin = '',.!A'', stdout = []\<rparr>
       = Some (Inl (TypeError, \<lparr>iobuf = ''A'', stdin = [], stdout = []\<rparr>))"
    by (simp add: main_stdin_def read_until_char_example interpret_bf_def c t l
          MINIMUM_TARGET_SIZE_def initial_state_def channels.truncate_def)
  from read_until_char_example g m show ?thesis by blast
qed

section \<open>The compiler\<close>

text \<open>
  The object \<^verbatim>\<open>self\<close> of \<^verbatim>\<open>BFCompiler\<close>: the attributes \<^verbatim>\<open>source\<close>, \<^verbatim>\<open>cursor\<close>, \<^verbatim>\<open>num_cells\<close>, and the
  state of the run-length pass, \<^verbatim>\<open>consumed\<close> and \<^verbatim>\<open>quantity\<close>.  The attributes \<^verbatim>\<open>labels\<close> and
  \<^verbatim>\<open>label_counter\<close> are written once and never read; they are left out.
\<close>

record compiler =
  self_source :: string
  self_cursor :: nat
  self_num_cells :: int
  self_consumed :: int
  self_quantity :: int

text \<open>Decimal text of an integer, as \<^verbatim>\<open>%d\<close> and \<^verbatim>\<open>str.format\<close> print it.\<close>

function str_nat :: "nat \<Rightarrow> string" where
  "str_nat n =
     (if n < 10 then [''0123456789'' ! n]
      else str_nat (n div 10) @ [''0123456789'' ! (n mod 10)])"
  by pat_completeness auto
termination
  by (relation "measure id") auto

declare str_nat.simps [simp del]

definition str_int :: "int \<Rightarrow> string" where
  "str_int i = (if i < 0 then CHR ''-'' # str_nat (nat (- i)) else str_nat (nat i))"

text \<open>
  The templates of the source are texts of whole lines, each ended by a newline; they are
  written as the list of their lines.  \<^verbatim>\<open>PROGRAM_HEADER.format(a, b)\<close> puts \<open>a\<close> in place of
  \<^verbatim>\<open>{0}\<close> and \<open>b\<close> in place of \<^verbatim>\<open>{1}\<close>; the instruction templates print their argument at \<^verbatim>\<open>%d\<close>.
\<close>

definition text_of_lines :: "string list \<Rightarrow> string" where
  "text_of_lines ls = concat (map (\<lambda>l. l @ ''\<newline>'') ls)"

definition PROGRAM_HEADER :: "string \<Rightarrow> string \<Rightarrow> string" where
  \<open>PROGRAM_HEADER arg0 arg1 = text_of_lines
     [''.section .data'',
      ''has_read:'',
      ''    .byte 0'',
      ''region:'',
      ''    .zero '' @ arg0,
      ''pointer:'',
      ''    .long 0'',
      ''abort_message:'',
      ''    .string "abort: pointer out of range"'',
      ''    abort_message_len = (. - abort_message)'',
      '''',
      ''.section .text'',
      ''.global _start'',
      '''',
      ''dotproc:'',
      ''    movq $1, %rdi'',
      ''    lea [region], %rsi'',
      ''    add [pointer], %esi'',
      ''    movq $1, %rdx'',
      ''    movq $1, %rax'',
      ''    syscall'',
      ''    ret'',
      ''commaproc:'',
      ''    movq $1, [has_read]'',
      ''    movq $0, %rdi'',
      ''    lea [region], %rsi'',
      ''    add [pointer], %esi'',
      ''    movq $1, %rdx'',
      ''    movq $0, %rax'',
      ''    syscall'',
      ''    ret'',
      '''',
      ''cleanup:'',
      ''    cmpb $1, [has_read]'',
      ''    jne exit'',
      ''clearbuf:'',
      ''    movq $0, %rdi'',
      ''    lea [region], %rsi'',
      ''    movq $'' @ arg1 @ '', %rdx'',
      ''    movq $0, %rax'',
      ''    syscall'',
      '''',
      ''    cmp $'' @ arg1 @ '', %rax'',
      ''    je clearbuf'',
      ''exit:'',
      ''    movq $0, %rdi'',
      ''    movq $60, %rax'',
      ''    syscall'',
      '''',
      ''abort:'',
      ''    movq $1, %rdi'',
      ''    lea [abort_message], %rsi'',
      ''    movq $abort_message_len, %rdx'',
      ''    movq $1, %rax'',
      ''    syscall'',
      ''    jmp exit'',
      '''',
      ''_start:'']\<close>

definition SHIFT_RIGHT_INSTRUCTION :: "int \<Rightarrow> string" where
  "SHIFT_RIGHT_INSTRUCTION d =
     text_of_lines [''addl $'' @ str_int d @ '', [pointer]'', ''cmpl $-1, [pointer]'', ''je abort'']"

definition SHIFT_LEFT_INSTRUCTION :: "int \<Rightarrow> string" where
  "SHIFT_LEFT_INSTRUCTION d =
     text_of_lines [''subl $'' @ str_int d @ '', [pointer]'', ''cmpl $-1, [pointer]'', ''je abort'']"

definition ADD_INSTRUCTION :: "int \<Rightarrow> string" where
  "ADD_INSTRUCTION d =
     text_of_lines [''lea [region], %eax'', ''add [pointer], %eax'',
                    ''addb $'' @ str_int d @ '', (%eax)'']"

definition SUB_INSTRUCTION :: "int \<Rightarrow> string" where
  "SUB_INSTRUCTION d =
     text_of_lines [''lea [region], %eax'', ''add [pointer], %eax'',
                    ''subb $'' @ str_int d @ '', (%eax)'']"

text \<open>
  \<^verbatim>\<open>BFCompiler.__init__\<close>.  The constructor leaves \<^verbatim>\<open>consumed\<close> and \<^verbatim>\<open>quantity\<close> unset;
  \<^verbatim>\<open>__produce_instruction\<close> sets both to 0 before it reads them, so their first value does
  not matter.
\<close>

definition BFCompiler_init :: "string \<Rightarrow> int \<Rightarrow> compiler" where
  "BFCompiler_init source num_cells =
     \<lparr>self_source = normalize_bf source, self_cursor = 0, self_num_cells = num_cells,
      self_consumed = 0, self_quantity = 0\<rparr>"

definition produce_header :: "compiler \<Rightarrow> string" where
  "produce_header self =
     (let buf_size = min (self_num_cells self) 1024
      in PROGRAM_HEADER (str_int (self_num_cells self)) (str_int buf_size))"

text \<open>
  \<^verbatim>\<open>__produce_shift_instruction\<close>.  The loop goes on while the cursor is inside the source and
  on a move token (the source reads \<^verbatim>\<open>char\<close> before the loop and after each increment, and
  breaks at the end of the source).  The first read of \<^verbatim>\<open>self.source[self.cursor]\<close> raises
  \<^verbatim>\<open>IndexError\<close> when the cursor is not inside the source.
\<close>

function shift_loop :: "compiler \<Rightarrow> compiler" where
  "shift_loop self =
     (if self_cursor self < length (self_source self)
         \<and> self_source self ! self_cursor self \<in> {CHR ''<'', CHR ''>''}
      then shift_loop
             (self\<lparr>self_consumed := self_consumed self + 1,
                   self_quantity := self_quantity self
                      + (if self_source self ! self_cursor self = CHR ''>'' then 1 else - 1),
                   self_cursor := self_cursor self + 1\<rparr>)
      else self)"
  by pat_completeness auto
termination
  by (relation "measure (\<lambda>self. length (self_source self) - self_cursor self)") auto

declare shift_loop.simps [simp del]

definition produce_shift_instruction :: "compiler \<Rightarrow> error + (string option \<times> compiler)" where
  "produce_shift_instruction self =
     (if length (self_source self) \<le> self_cursor self then Inl IndexError
      else
        (let self1 = shift_loop self
         in Inr (if 0 < self_consumed self1 then
                   (if 0 < self_quantity self1 then
                      Some (SHIFT_RIGHT_INSTRUCTION (self_quantity self1))
                    else if self_quantity self1 < 0 then
                      Some (SHIFT_LEFT_INSTRUCTION (- self_quantity self1))
                    else Some [])
                 else None,
                 self1)))"

text \<open>\<^verbatim>\<open>__produce_mutate_instruction\<close>, the same pass over increment and decrement tokens.\<close>

function mutate_loop :: "compiler \<Rightarrow> compiler" where
  "mutate_loop self =
     (if self_cursor self < length (self_source self)
         \<and> self_source self ! self_cursor self \<in> {CHR ''+'', CHR ''-''}
      then mutate_loop
             (self\<lparr>self_consumed := self_consumed self + 1,
                   self_quantity := self_quantity self
                      + (if self_source self ! self_cursor self = CHR ''+'' then 1 else - 1),
                   self_cursor := self_cursor self + 1\<rparr>)
      else self)"
  by pat_completeness auto
termination
  by (relation "measure (\<lambda>self. length (self_source self) - self_cursor self)") auto

declare mutate_loop.simps [simp del]

definition produce_mutate_instruction :: "compiler \<Rightarrow> error + (string option \<times> compiler)" where
  "produce_mutate_instruction self =
     (if length (self_source self) \<le> self_cursor self then Inl IndexError
      else
        (let self1 = mutate_loop self
         in Inr (if 0 < self_consumed self1 then
                   (if 0 < self_quantity self1 then
                      Some (ADD_INSTRUCTION (self_quantity self1))
                    else if self_quantity self1 < 0 then
                      Some (SUB_INSTRUCTION (- self_quantity self1))
                    else Some [])
                 else None,
                 self1)))"

text \<open>
  \<^verbatim>\<open>__get_label\<close>, and the two bracket scans.  \<^verbatim>\<open>__lookahead\<close> scans forward from the position
  after the cursor, \<^verbatim>\<open>__lookbehind\<close> backward from the position before it, while the nesting
  level is not negative; the backward scan goes on only while \<^verbatim>\<open>local_cursor > 0\<close>.
\<close>

definition get_label :: "int \<Rightarrow> string" where
  "get_label index = ''tag_'' @ str_int index"

function lookahead_loop :: "string \<Rightarrow> nat \<Rightarrow> int \<Rightarrow> nat \<times> int" where
  "lookahead_loop source local_cursor nest_level =
     (if 0 \<le> nest_level \<and> local_cursor < length source then
        lookahead_loop source (local_cursor + 1)
          (if source ! local_cursor = CHR ''['' then nest_level + 1
           else if source ! local_cursor = CHR '']'' then nest_level - 1
           else nest_level)
      else (local_cursor, nest_level))"
  by pat_completeness auto
termination
  by (relation "measure (\<lambda>(source, local_cursor, nest_level). length source - local_cursor)") auto

declare lookahead_loop.simps [simp del]

definition lookahead :: "compiler \<Rightarrow> error + string" where
  "lookahead self =
     (case lookahead_loop (self_source self) (self_cursor self + 1) 0 of
        (local_cursor, nest_level) \<Rightarrow>
          if nest_level < 0 then Inr (get_label (int local_cursor - 1))
          else Inl MissingMatchingBracket)"

function lookbehind_loop :: "string \<Rightarrow> int \<Rightarrow> int \<Rightarrow> int \<times> int" where
  "lookbehind_loop source local_cursor nest_level =
     (if 0 \<le> nest_level \<and> 0 < local_cursor then
        lookbehind_loop source (local_cursor - 1)
          (if source ! nat local_cursor = CHR '']'' then nest_level + 1
           else if source ! nat local_cursor = CHR ''['' then nest_level - 1
           else nest_level)
      else (local_cursor, nest_level))"
  by pat_completeness auto
termination
  by (relation "measure (\<lambda>(source, local_cursor, nest_level). nat local_cursor)") auto

declare lookbehind_loop.simps [simp del]

definition lookbehind :: "compiler \<Rightarrow> error + string" where
  "lookbehind self =
     (case lookbehind_loop (self_source self) (int (self_cursor self) - 1) 0 of
        (local_cursor, nest_level) \<Rightarrow>
          if nest_level < 0 then Inr (get_label (local_cursor + 1))
          else Inl MissingMatchingBracket)"

definition produce_loop_start :: "compiler \<Rightarrow> error + string" where
  "produce_loop_start self =
     (case lookahead self of
        Inl e \<Rightarrow> Inl e
      | Inr target \<Rightarrow>
          Inr (text_of_lines
                 [get_label (int (self_cursor self)) @ '':'',
                  ''lea [region], %eax'', ''add [pointer], %eax'', ''cmpb $0, (%eax)'',
                  ''je '' @ target]))"

definition produce_loop_end :: "compiler \<Rightarrow> error + string" where
  "produce_loop_end self =
     (case lookbehind self of
        Inl e \<Rightarrow> Inl e
      | Inr target \<Rightarrow>
          Inr (text_of_lines
                 [get_label (int (self_cursor self)) @ '':'',
                  ''lea [region], %eax'', ''add [pointer], %eax'', ''cmpb $0, (%eax)'',
                  ''jne '' @ target]))"

text \<open>
  \<^verbatim>\<open>__produce_instruction\<close>: the run-length passes first, then the \<^verbatim>\<open>if\<close> chain over the
  remaining tokens (here \<open>produce_token\<close>) and \<^verbatim>\<open>self.cursor += 1\<close>.
\<close>

definition produce_token :: "compiler \<Rightarrow> error + string" where
  "produce_token self =
     (let char = self_source self ! self_cursor self in
      if char = CHR ''['' then produce_loop_start self
      else if char = CHR '']'' then produce_loop_end self
      else if char = CHR ''.'' then Inr (text_of_lines [''call dotproc''])
      else if char = CHR '','' then Inr (text_of_lines [''call commaproc''])
      else Inr [])"

definition produce_instruction :: "compiler \<Rightarrow> error + (string \<times> compiler)" where
  "produce_instruction self =
     (if self_cursor self = length (self_source self) then Inl StopIteration
      else
        (case produce_shift_instruction (self\<lparr>self_consumed := 0, self_quantity := 0\<rparr>) of
           Inl e \<Rightarrow> Inl e
         | Inr (Some instruction, self1) \<Rightarrow> Inr (instruction, self1)
         | Inr (None, self1) \<Rightarrow>
             (case produce_mutate_instruction self1 of
                Inl e \<Rightarrow> Inl e
              | Inr (Some instruction, self2) \<Rightarrow> Inr (instruction, self2)
              | Inr (None, self2) \<Rightarrow>
                  (case produce_token self2 of
                     Inl e \<Rightarrow> Inl e
                   | Inr instruction \<Rightarrow>
                       Inr (instruction, self2\<lparr>self_cursor := self_cursor self2 + 1\<rparr>)))))"


text \<open>
  Both run-length loops are instances of one loop over an up token and a down token; the
  facts about them are proved once.
\<close>

function fold_run :: "char \<Rightarrow> char \<Rightarrow> compiler \<Rightarrow> compiler" where
  "fold_run up down self =
     (if self_cursor self < length (self_source self)
         \<and> self_source self ! self_cursor self \<in> {down, up}
      then fold_run up down
             (self\<lparr>self_consumed := self_consumed self + 1,
                   self_quantity := self_quantity self
                      + (if self_source self ! self_cursor self = up then 1 else - 1),
                   self_cursor := self_cursor self + 1\<rparr>)
      else self)"
  by pat_completeness auto
termination
  by (relation "measure (\<lambda>(up, down, self). length (self_source self) - self_cursor self)") auto

declare fold_run.simps [simp del]

lemma shift_loop_fold_run: "shift_loop self = fold_run CHR ''>'' CHR ''<'' self"
proof (induction self rule: shift_loop.induct)
  case (1 self)
  show ?case
  proof (cases "self_cursor self < length (self_source self)
         \<and> self_source self ! self_cursor self \<in> {CHR ''<'', CHR ''>''}")
    case True
    have a: "shift_loop self = shift_loop
             (self\<lparr>self_consumed := self_consumed self + 1,
                   self_quantity := self_quantity self
                      + (if self_source self ! self_cursor self = CHR ''>'' then 1 else - 1),
                   self_cursor := self_cursor self + 1\<rparr>)"
      using shift_loop.simps [of self] True by simp
    have b: "fold_run CHR ''>'' CHR ''<'' self = fold_run CHR ''>'' CHR ''<''
             (self\<lparr>self_consumed := self_consumed self + 1,
                   self_quantity := self_quantity self
                      + (if self_source self ! self_cursor self = CHR ''>'' then 1 else - 1),
                   self_cursor := self_cursor self + 1\<rparr>)"
      using fold_run.simps [of "CHR ''>''" "CHR ''<''" self] True by simp
    from "1.IH" [OF True] a b show ?thesis by simp
  next
    case False
    have a: "shift_loop self = self"
      using shift_loop.simps [of self] False by auto
    have b: "fold_run CHR ''>'' CHR ''<'' self = self"
      using fold_run.simps [of "CHR ''>''" "CHR ''<''" self] False by auto
    from a b show ?thesis by simp
  qed
qed

lemma mutate_loop_fold_run: "mutate_loop self = fold_run CHR ''+'' CHR ''-'' self"
proof (induction self rule: mutate_loop.induct)
  case (1 self)
  show ?case
  proof (cases "self_cursor self < length (self_source self)
         \<and> self_source self ! self_cursor self \<in> {CHR ''+'', CHR ''-''}")
    case True
    have a: "mutate_loop self = mutate_loop
             (self\<lparr>self_consumed := self_consumed self + 1,
                   self_quantity := self_quantity self
                      + (if self_source self ! self_cursor self = CHR ''+'' then 1 else - 1),
                   self_cursor := self_cursor self + 1\<rparr>)"
      using mutate_loop.simps [of self] True by simp
    have b: "fold_run CHR ''+'' CHR ''-'' self = fold_run CHR ''+'' CHR ''-''
             (self\<lparr>self_consumed := self_consumed self + 1,
                   self_quantity := self_quantity self
                      + (if self_source self ! self_cursor self = CHR ''+'' then 1 else - 1),
                   self_cursor := self_cursor self + 1\<rparr>)"
      using fold_run.simps [of "CHR ''+''" "CHR ''-''" self] True by auto
    from "1.IH" [OF True] a b show ?thesis by simp
  next
    case False
    have a: "mutate_loop self = self"
      using mutate_loop.simps [of self] False by auto
    have b: "fold_run CHR ''+'' CHR ''-'' self = self"
      using fold_run.simps [of "CHR ''+''" "CHR ''-''" self] False by auto
    from a b show ?thesis by simp
  qed
qed

definition unit_effect :: "char \<Rightarrow> char \<Rightarrow> int" where
  "unit_effect up c = (if c = up then 1 else - 1)"

definition run_tokens :: "string \<Rightarrow> nat \<Rightarrow> nat \<Rightarrow> string" where
  "run_tokens source start stop = take (stop - start) (drop start source)"

lemma run_tokens_empty [simp]: "run_tokens source start start = []"
  by (simp add: run_tokens_def)

lemma run_tokens_step:
  "start < stop \<Longrightarrow> start < length source \<Longrightarrow>
     run_tokens source start stop = source ! start # run_tokens source (Suc start) stop"
proof -
  assume a: "start < stop" and b: "start < length source"
  from a obtain k where k: "stop - start = Suc k" and k': "stop - Suc start = k"
    by (cases "stop - start") auto
  from b have "drop start source = source ! start # drop (Suc start) source"
    by (simp add: Cons_nth_drop_Suc)
  with k k' show ?thesis by (simp add: run_tokens_def)
qed

lemma fold_run_facts:
  "self_source (fold_run up down self) = self_source self
   \<and> self_num_cells (fold_run up down self) = self_num_cells self
   \<and> self_cursor self \<le> self_cursor (fold_run up down self)
   \<and> (self_cursor self \<le> length (self_source self)
        \<longrightarrow> self_cursor (fold_run up down self) \<le> length (self_source self))
   \<and> (\<forall>j. self_cursor self \<le> j \<and> j < self_cursor (fold_run up down self)
        \<longrightarrow> self_source self ! j \<in> {down, up})
   \<and> \<not> (self_cursor (fold_run up down self) < length (self_source self)
        \<and> self_source self ! self_cursor (fold_run up down self) \<in> {down, up})
   \<and> self_consumed (fold_run up down self)
        = self_consumed self + int (self_cursor (fold_run up down self) - self_cursor self)
   \<and> self_quantity (fold_run up down self)
        = self_quantity self
          + sum_list (map (unit_effect up)
              (run_tokens (self_source self) (self_cursor self)
                 (self_cursor (fold_run up down self))))"
proof (induction up down self rule: fold_run.induct)
  case (1 up down self)
  let ?c = "self_source self ! self_cursor self \<in> {down, up}"
  show ?case
  proof (cases "self_cursor self < length (self_source self) \<and> ?c")
    case False
    then have e: "fold_run up down self = self"
      using fold_run.simps [of up down self] by auto
    from False show ?thesis unfolding e by auto
  next
    case True
    define self' where "self' = self\<lparr>self_consumed := self_consumed self + 1,
                   self_quantity := self_quantity self
                      + (if self_source self ! self_cursor self = up then 1 else - 1),
                   self_cursor := self_cursor self + 1\<rparr>"
    from True have e: "fold_run up down self = fold_run up down self'"
      using fold_run.simps [of up down self] by (simp add: self'_def)
    note ih = "1.IH" [OF True, folded self'_def]
    have s: "self_source self' = self_source self" "self_cursor self' = Suc (self_cursor self)"
      "self_num_cells self' = self_num_cells self"
      "self_consumed self' = self_consumed self + 1"
      "self_quantity self' = self_quantity self + unit_effect up (self_source self ! self_cursor self)"
      by (simp_all add: self'_def unit_effect_def)
    let ?r = "fold_run up down self'"
    from ih s have lt: "self_cursor self < self_cursor ?r" by simp
    have rt: "run_tokens (self_source self) (self_cursor self) (self_cursor ?r)
        = self_source self ! self_cursor self
          # run_tokens (self_source self) (Suc (self_cursor self)) (self_cursor ?r)"
      using run_tokens_step [OF lt] True by simp
    have j: "\<forall>j. self_cursor self \<le> j \<and> j < self_cursor ?r \<longrightarrow> self_source self ! j \<in> {down, up}"
    proof (intro allI impI)
      fix j assume a: "self_cursor self \<le> j \<and> j < self_cursor ?r"
      show "self_source self ! j \<in> {down, up}"
      proof (cases "j = self_cursor self")
        case True
        with \<open>self_cursor self < length (self_source self) \<and> ?c\<close> show ?thesis by simp
      next
        case False
        with a have "self_cursor self' \<le> j \<and> j < self_cursor ?r" using s by simp
        with ih s show ?thesis by simp
      qed
    qed
    have cons: "self_consumed ?r = self_consumed self + int (self_cursor ?r - self_cursor self)"
      using ih s lt by simp
    have q: "self_quantity ?r = self_quantity self
          + sum_list (map (unit_effect up)
              (run_tokens (self_source self) (self_cursor self) (self_cursor ?r)))"
      using ih s rt by simp
    from ih s lt True j cons q show ?thesis unfolding e by simp
  qed
qed

definition shift_text :: "int \<Rightarrow> string" where
  "shift_text q =
     (if 0 < q then SHIFT_RIGHT_INSTRUCTION q
      else if q < 0 then SHIFT_LEFT_INSTRUCTION (- q)
      else [])"

definition mutate_text :: "int \<Rightarrow> string" where
  "mutate_text q =
     (if 0 < q then ADD_INSTRUCTION q
      else if q < 0 then SUB_INSTRUCTION (- q)
      else [])"

lemma fold_run_stay:
  "\<not> (self_cursor self < length (self_source self)
       \<and> self_source self ! self_cursor self \<in> {down, up})
   \<Longrightarrow> fold_run up down self = self"
  using fold_run.simps [of up down self] by auto

lemma fold_run_advance:
  assumes "self_cursor self < length (self_source self)"
    and "self_source self ! self_cursor self \<in> {down, up}"
  shows "self_cursor self < self_cursor (fold_run up down self)"
proof -
  let ?self' = "self\<lparr>self_consumed := self_consumed self + 1,
                   self_quantity := self_quantity self
                      + (if self_source self ! self_cursor self = up then 1 else - 1),
                   self_cursor := self_cursor self + 1\<rparr>"
  have "fold_run up down self = fold_run up down ?self'"
    using fold_run.simps [of up down self] assms by simp
  moreover have "self_cursor ?self' \<le> self_cursor (fold_run up down ?self')"
    using fold_run_facts [of up down ?self'] by blast
  ultimately show ?thesis by simp
qed

lemma produce_instruction_move:
  assumes lt: "self_cursor self < length (self_source self)"
    and tok: "self_source self ! self_cursor self \<in> {CHR ''<'', CHR ''>''}"
  shows "produce_instruction self =
           Inr (shift_text (self_quantity (shift_loop (self\<lparr>self_consumed := 0, self_quantity := 0\<rparr>))),
                shift_loop (self\<lparr>self_consumed := 0, self_quantity := 0\<rparr>))"
proof -
  let ?self0 = "self\<lparr>self_consumed := 0, self_quantity := 0\<rparr>"
  note f = fold_run_facts [of "CHR ''>''" "CHR ''<''" ?self0, folded shift_loop_fold_run]
  have "self_cursor ?self0 < self_cursor (shift_loop ?self0)"
    unfolding shift_loop_fold_run using lt tok by (intro fold_run_advance) simp_all
  with f have c: "0 < self_consumed (shift_loop ?self0)" by simp
  from lt have ne: "self_cursor self \<noteq> length (self_source self)" by simp
  from c lt ne show ?thesis
    by (simp add: produce_instruction_def produce_shift_instruction_def Let_def shift_text_def)
qed

lemma produce_instruction_mutate:
  assumes lt: "self_cursor self < length (self_source self)"
    and tok: "self_source self ! self_cursor self \<in> {CHR ''+'', CHR ''-''}"
  shows "produce_instruction self =
           Inr (mutate_text (self_quantity (mutate_loop (self\<lparr>self_consumed := 0, self_quantity := 0\<rparr>))),
                mutate_loop (self\<lparr>self_consumed := 0, self_quantity := 0\<rparr>))"
proof -
  let ?self0 = "self\<lparr>self_consumed := 0, self_quantity := 0\<rparr>"
  from tok have "\<not> (self_cursor ?self0 < length (self_source ?self0)
       \<and> self_source ?self0 ! self_cursor ?self0 \<in> {CHR ''<'', CHR ''>''})"
    by auto
  from fold_run_stay [OF this] have s: "shift_loop ?self0 = ?self0"
    by (simp add: shift_loop_fold_run)
  note f = fold_run_facts [of "CHR ''+''" "CHR ''-''" ?self0, folded mutate_loop_fold_run]
  have "self_cursor ?self0 < self_cursor (mutate_loop ?self0)"
    unfolding mutate_loop_fold_run using lt tok by (intro fold_run_advance) auto
  with f have c: "0 < self_consumed (mutate_loop ?self0)" by simp
  from lt have ne: "self_cursor self \<noteq> length (self_source self)" by simp
  from c lt ne s show ?thesis
    by (simp add: produce_instruction_def produce_shift_instruction_def
          produce_mutate_instruction_def Let_def mutate_text_def)
qed

lemma produce_instruction_token:
  assumes lt: "self_cursor self < length (self_source self)"
    and tok: "self_source self ! self_cursor self \<notin> {CHR ''<'', CHR ''>'', CHR ''+'', CHR ''-''}"
  shows "produce_instruction self =
           (case produce_token (self\<lparr>self_consumed := 0, self_quantity := 0\<rparr>) of
              Inl e \<Rightarrow> Inl e
            | Inr instruction \<Rightarrow>
                Inr (instruction,
                     self\<lparr>self_consumed := 0, self_quantity := 0,
                          self_cursor := self_cursor self + 1\<rparr>))"
proof -
  let ?self0 = "self\<lparr>self_consumed := 0, self_quantity := 0\<rparr>"
  from tok have "\<not> (self_cursor ?self0 < length (self_source ?self0)
       \<and> self_source ?self0 ! self_cursor ?self0 \<in> {CHR ''<'', CHR ''>''})"
    by auto
  from fold_run_stay [OF this] have s: "shift_loop ?self0 = ?self0"
    by (simp add: shift_loop_fold_run)
  from tok have "\<not> (self_cursor ?self0 < length (self_source ?self0)
       \<and> self_source ?self0 ! self_cursor ?self0 \<in> {CHR ''-'', CHR ''+''})"
    by auto
  from fold_run_stay [OF this] have m: "mutate_loop ?self0 = ?self0"
    by (simp add: mutate_loop_fold_run)
  from lt have ne: "self_cursor self \<noteq> length (self_source self)" by simp
  from lt ne s m show ?thesis
    by (simp add: produce_instruction_def produce_shift_instruction_def
          produce_mutate_instruction_def Let_def split: sum.splits)
qed

lemma produce_instruction_progress:
  assumes "produce_instruction self = Inr (instruction, self1)"
  shows "self_source self1 = self_source self \<and> self_num_cells self1 = self_num_cells self
     \<and> self_cursor self < self_cursor self1 \<and> self_cursor self1 \<le> length (self_source self)"
proof -
  let ?self0 = "self\<lparr>self_consumed := 0, self_quantity := 0\<rparr>"
  from assms have lt: "self_cursor self < length (self_source self)"
    by (auto simp: produce_instruction_def produce_shift_instruction_def split: if_splits)
  consider (move) "self_source self ! self_cursor self \<in> {CHR ''<'', CHR ''>''}"
    | (mut) "self_source self ! self_cursor self \<in> {CHR ''+'', CHR ''-''}"
    | (tok) "self_source self ! self_cursor self \<notin> {CHR ''<'', CHR ''>'', CHR ''+'', CHR ''-''}"
    by blast
  then show ?thesis
  proof cases
    case move
    note f = fold_run_facts [of "CHR ''>''" "CHR ''<''" ?self0, folded shift_loop_fold_run]
    have "self_cursor ?self0 < self_cursor (shift_loop ?self0)"
      unfolding shift_loop_fold_run using lt move by (intro fold_run_advance) simp_all
    with f lt assms produce_instruction_move [OF lt move] show ?thesis by simp
  next
    case mut
    note f = fold_run_facts [of "CHR ''+''" "CHR ''-''" ?self0, folded mutate_loop_fold_run]
    have "self_cursor ?self0 < self_cursor (mutate_loop ?self0)"
      unfolding mutate_loop_fold_run using lt mut by (intro fold_run_advance) auto
    with f lt assms produce_instruction_mutate [OF lt mut] show ?thesis by simp
  next
    case tok
    with assms produce_instruction_token [OF lt tok] lt show ?thesis
      by (auto split: sum.splits)
  qed
qed

text \<open>
  \<^verbatim>\<open>compile\<close>: the header, then the instructions until \<^verbatim>\<open>StopIteration\<close>, then the call of the
  clean-up routine.  Every instruction moves the cursor forward, so the loop ends.
\<close>

function compile_loop :: "compiler \<Rightarrow> string \<Rightarrow> error + string" where
  "compile_loop self output =
     (case produce_instruction self of
        Inl e \<Rightarrow> if e = StopIteration then Inr output else Inl e
      | Inr (instruction, self1) \<Rightarrow> compile_loop self1 (output @ instruction))"
  by pat_completeness auto
termination
proof (relation "measure (\<lambda>(self, output). length (self_source self) - self_cursor self)")
  show "wf (measure (\<lambda>(self, output). length (self_source self) - self_cursor self))"
    by simp
next
  fix self :: compiler and out :: string and x2 instruction self1
  assume "produce_instruction self = Inr x2" and "(instruction, self1) = x2"
  then have "produce_instruction self = Inr (instruction, self1)" by simp
  from produce_instruction_progress [OF this]
  have "self_source self1 = self_source self"
    and "self_cursor self < self_cursor self1"
    and "self_cursor self1 \<le> length (self_source self)"
    by simp_all
  then have "length (self_source self1) - self_cursor self1
               < length (self_source self) - self_cursor self"
    by simp
  then show "((self1, out @ instruction), self, out)
          \<in> measure (\<lambda>(self, output). length (self_source self) - self_cursor self)"
    by simp
qed

declare compile_loop.simps [simp del]

definition compile :: "compiler \<Rightarrow> error + string" where
  "compile self =
     (case compile_loop self (produce_header self) of
        Inl e \<Rightarrow> Inl e
      | Inr output \<Rightarrow> Inr (output @ ''call cleanup''))"

definition compile_source :: "string \<Rightarrow> int \<Rightarrow> error + string" where
  "compile_source source num_cells = compile (BFCompiler_init source num_cells)"

lemma compile_loop_error:
  "produce_instruction self = Inl e \<Longrightarrow> e \<noteq> StopIteration \<Longrightarrow> compile_loop self out = Inl e"
  using compile_loop.simps [of self out] by simp


lemma compile_loop_step:
  "produce_instruction self = Inr (instruction, self1) \<Longrightarrow>
     compile_loop self out = compile_loop self1 (out @ instruction)"
  using compile_loop.simps [of self out] by simp

lemma compile_empty_loop_rejected:
  "compile_source ''[]'' num_cells = Inl MissingMatchingBracket"
proof -
  let ?self = "\<lparr>self_source = ''[]'', self_cursor = 0, self_num_cells = num_cells,
      self_consumed = 0, self_quantity = 0\<rparr>"
  let ?self1 = "\<lparr>self_source = ''[]'', self_cursor = Suc 0, self_num_cells = num_cells,
      self_consumed = 0, self_quantity = 0\<rparr>"
  have la: "lookahead_loop ''[]'' (Suc 0) 0 = (2, - 1)"
    by (simp add: lookahead_loop.simps)
  have n: "normalize_bf ''[]'' = ''[]''"
    by (simp add: normalize_bf_def VALID_TOKENS_def)
  have pt: "\<exists>instruction. produce_token ?self = Inr instruction"
    by (simp add: produce_token_def Let_def produce_loop_start_def lookahead_def la)
  have "produce_instruction ?self =
           (case produce_token (?self\<lparr>self_consumed := 0, self_quantity := 0\<rparr>) of
              Inl e \<Rightarrow> Inl e
            | Inr instruction \<Rightarrow>
                Inr (instruction,
                     ?self\<lparr>self_consumed := 0, self_quantity := 0,
                          self_cursor := self_cursor ?self + 1\<rparr>))"
    by (rule produce_instruction_token) simp_all
  with pt obtain instruction where a: "produce_instruction ?self = Inr (instruction, ?self1)"
    by auto
  have lb: "lookbehind_loop ''[]'' 0 0 = (0, 0)"
    by (simp add: lookbehind_loop.simps)
  have pe: "produce_token ?self1 = Inl MissingMatchingBracket"
    by (simp add: produce_token_def Let_def produce_loop_end_def lookbehind_def lb)
  have "produce_instruction ?self1 =
           (case produce_token (?self1\<lparr>self_consumed := 0, self_quantity := 0\<rparr>) of
              Inl e \<Rightarrow> Inl e
            | Inr instruction \<Rightarrow>
                Inr (instruction,
                     ?self1\<lparr>self_consumed := 0, self_quantity := 0,
                          self_cursor := self_cursor ?self1 + 1\<rparr>))"
    by (rule produce_instruction_token) simp_all
  with pe have b: "produce_instruction ?self1 = Inl MissingMatchingBracket"
    by simp
  have "compile_loop ?self out = Inl MissingMatchingBracket" for out
    using compile_loop_step [OF a, of out] compile_loop_error [OF b] by simp
  then show ?thesis
    by (simp add: compile_source_def compile_def BFCompiler_init_def n)
qed











section \<open>The two backends on the same program\<close>

text \<open>
  Claim C1, at the program \<^verbatim>\<open>[]\<close>.  The program is well formed and the interpreter's
  bracket map matches position 0 with position 1, but the compiler's backward scan from
  the loop-end at position 1 starts at position 0 and its loop guard \<^verbatim>\<open>local_cursor > 0\<close>
  keeps it from ever looking at position 0: the scan finds no loop-start and the
  compilation fails with \<^verbatim>\<open>missing matching bracket\<close>.
\<close>

theorem compiler_rejects_leading_loop:
  "well_formed ''[]''
   \<and> map_sum id (\<lambda>tags. (tags 0, tags 1)) (construct_tags ''[]'') = Inr (Some 1, Some 0)
   \<and> lookbehind \<lparr>self_source = ''[]'', self_cursor = 1, self_num_cells = 30000,
        self_consumed = 0, self_quantity = 0\<rparr> = Inl MissingMatchingBracket
   \<and> compile_source ''[]'' 30000 = Inl MissingMatchingBracket"
proof -
  have a: "well_formed ''[]''" by (simp add: well_formed_def)
  have b: "map_sum id (\<lambda>tags. (tags 0, tags 1)) (construct_tags ''[]'') = Inr (Some 1, Some 0)"
    by code_simp
  have c: "lookbehind \<lparr>self_source = ''[]'', self_cursor = 1, self_num_cells = 30000,
        self_consumed = 0, self_quantity = 0\<rparr> = Inl MissingMatchingBracket"
    by (simp add: lookbehind_def lookbehind_loop.simps)
  from a b c compile_empty_loop_rejected [of 30000] show ?thesis by blast
qed



section \<open>The lines of the generated program\<close>



























section \<open>Malformed programs\<close>













end
